theory Spec2Isabelle
  imports Complex_Main "HOL-Library.List_Lexorder" "HOL-Library.Char_ord"
    "HOL-Library.Product_Lexorder" "HOL-Library.While_Combinator"
begin

section \<open>Data model\<close>

text \<open>
  Node identifiers are strings. A Python \<^verbatim>\<open>float\<close> is modelled by a real number, and a
  float that may be \<^verbatim>\<open>float('inf')\<close> by \<open>xreal\<close>. The exceptions the modelled functions
  can raise are \<open>KeyError\<close> (a missing dictionary key or graph node), \<open>ValueError\<close>
  (\<^verbatim>\<open>max\<close> of an empty range) and \<open>StopIteration\<close> (\<^verbatim>\<open>next\<close> on an exhausted generator).
\<close>

type_synonym node = string

datatype py_error = KeyError | ValueError | StopIteration | ZeroDivisionError

datatype xreal = Fin real | PInf

text \<open>
  The attribute dictionary of an edge. An attribute that is absent from the dictionary is
  \<open>None\<close>, so that \<^verbatim>\<open>data.get('capacity', 2000)\<close> is a case distinction.
\<close>

record edge_data =
  distance :: "real option"
  capacity :: "real option"
  condition :: "real option"
  road_type :: "string option"
  cost :: "real option"

text \<open>
  A networkx \<^verbatim>\<open>MultiGraph\<close>: the nodes in insertion order, the position attribute of the
  nodes that have one, and the edges \<open>(u, v, key, data)\<close> in insertion order. The edges are
  undirected: \<^verbatim>\<open>G[u][v]\<close> and \<^verbatim>\<open>G[v][u]\<close> are the same key dictionary.
\<close>

record graph =
  gnodes :: "node list"
  gpos :: "node \<rightharpoonup> real \<times> real"
  gedges :: "(node \<times> node \<times> nat \<times> edge_data) list"

definition first_occurrences :: "'a list \<Rightarrow> 'a list" where
  "first_occurrences xs = rev (remdups (rev xs))"

definition edges_between :: "graph \<Rightarrow> node \<Rightarrow> node \<Rightarrow> (nat \<times> edge_data) list" where
  "edges_between G u v =
     concat (map (\<lambda>(a, b, k, d). if (a = u \<and> b = v) \<or> (a = v \<and> b = u) then [(k, d)] else [])
       (gedges G))"

definition neighbors :: "graph \<Rightarrow> node \<Rightarrow> node list" where
  "neighbors G u =
     first_occurrences
       (concat (map (\<lambda>(a, b, k, d). if a = u then [b] else if b = u then [a] else []) (gedges G)))"

text \<open>\<^verbatim>\<open>G[u].items()\<close>: the neighbours of \<open>u\<close>, each with its key dictionary.\<close>

definition adj :: "graph \<Rightarrow> node \<Rightarrow> (node \<times> (nat \<times> edge_data) list) list" where
  "adj G u = map (\<lambda>v. (v, edges_between G u v)) (neighbors G u)"

text \<open>\<^verbatim>\<open>G[u][v][key]\<close>, which raises \<^verbatim>\<open>KeyError\<close> when the node, the neighbour or the key is missing.\<close>

definition edge_lookup :: "graph \<Rightarrow> node \<Rightarrow> node \<Rightarrow> nat \<Rightarrow> py_error + edge_data" where
  "edge_lookup G u v k =
     (if u \<notin> set (gnodes G) then Inl KeyError
      else case map_of (edges_between G u v) k of
             None \<Rightarrow> Inl KeyError
           | Some d \<Rightarrow> Inr d)"

text \<open>
  The traffic table: time period, then the ordered node pair, to the observed flow.
\<close>

type_synonym traffic = "string \<rightharpoonup> (node \<times> node \<rightharpoonup> real)"

datatype transport_mode = Car | Bus | Metro | Emergency

section \<open>Edge weights (\<^verbatim>\<open>algorithms/greedy/dijkstra.py\<close>)\<close>

text \<open>\<^verbatim>\<open>str.lower\<close> on the ASCII letters.\<close>

definition lower_char :: "char \<Rightarrow> char" where
  "lower_char c =
     (if CHR ''A'' \<le> c \<and> c \<le> CHR ''Z''
      then (case c of Char b0 b1 b2 b3 b4 b5 b6 b7 \<Rightarrow> Char b0 b1 b2 b3 b4 True b6 b7)
      else c)"

definition lower :: "string \<Rightarrow> string" where
  "lower s = map lower_char s"

text \<open>The truth value of \<^verbatim>\<open>if time_period:\<close> for a value that is \<^verbatim>\<open>None\<close> or a string.\<close>

definition truthy :: "string option \<Rightarrow> bool" where
  "truthy s = (case s of None \<Rightarrow> False | Some t \<Rightarrow> t \<noteq> [])"

definition allowed_road_types :: "transport_mode \<Rightarrow> string list" where
  "allowed_road_types m =
     (case m of
        Car \<Rightarrow> [''existing'', ''potential'', ''bus'', ''virtual_connection'', ''virtual_link'']
      | Bus \<Rightarrow> [''bus'']
      | Metro \<Rightarrow> [''metro'']
      | Emergency \<Rightarrow> [''existing'', ''potential'', ''virtual_connection'', ''virtual_link''])"

definition road_allowed :: "transport_mode \<Rightarrow> edge_data \<Rightarrow> bool" where
  "road_allowed m data =
     (case road_type data of None \<Rightarrow> False | Some r \<Rightarrow> r \<in> set (allowed_road_types m))"

definition base_speeds :: "transport_mode \<Rightarrow> real" where
  "base_speeds m = (case m of Car \<Rightarrow> 120 | Bus \<Rightarrow> 100 | Metro \<Rightarrow> 90 | Emergency \<Rightarrow> 100)"

text \<open>\<^verbatim>\<open>G[u][v][key].get('capacity', 2000)\<close>\<close>

definition capacity_of :: "edge_data \<Rightarrow> real" where
  "capacity_of data = (case capacity data of None \<Rightarrow> 2000 | Some c \<Rightarrow> c)"

text \<open>\<^verbatim>\<open>traffic_data.get(period.lower(), {}).get((str(u), str(v)), capacity)\<close>\<close>

definition traffic_lookup :: "traffic \<Rightarrow> string \<Rightarrow> node \<Rightarrow> node \<Rightarrow> real \<Rightarrow> real" where
  "traffic_lookup td p u v cap =
     (case td (lower p) of
        None \<Rightarrow> cap
      | Some m \<Rightarrow> (case m (u, v) of None \<Rightarrow> cap | Some f \<Rightarrow> f))"

text \<open>Lines 68 to 72: the flow, or \<^verbatim>\<open>None\<close> when neither time period is given.\<close>

definition traffic_flow_of ::
  "traffic \<Rightarrow> string option \<Rightarrow> string option \<Rightarrow> node \<Rightarrow> node \<Rightarrow> real \<Rightarrow> real option" where
  "traffic_flow_of td tp etp u v cap =
     (if truthy tp then (case tp of None \<Rightarrow> None | Some p \<Rightarrow> Some (traffic_lookup td p u v cap))
      else if truthy etp then
        (case etp of None \<Rightarrow> None | Some p \<Rightarrow> Some (traffic_lookup td p u v cap))
      else None)"

text \<open>Lines 77 and 78: the guarded quotient, clamped.\<close>

definition traffic_factor :: "real \<Rightarrow> real \<Rightarrow> real" where
  "traffic_factor flow cap = max (1 / 2) (min (if cap > 0 then flow / cap else 1) (3 / 2))"

definition effective_speed :: "transport_mode \<Rightarrow> real option \<Rightarrow> real \<Rightarrow> real" where
  "effective_speed m traffic_flow cap =
     (case traffic_flow of
        Some flow \<Rightarrow>
          if m \<in> {Car, Bus, Emergency} then base_speeds m / traffic_factor flow cap
          else base_speeds m
      | None \<Rightarrow> base_speeds m)"

text \<open>
  \<^verbatim>\<open>get_edge_weight\<close>. The parameters \<^verbatim>\<open>emergency_path\<close> and \<^verbatim>\<open>emergency_active\<close> are not
  read by the function and are left out.
\<close>

definition get_edge_weight ::
  "graph \<Rightarrow> traffic \<Rightarrow> node \<Rightarrow> node \<Rightarrow> nat \<Rightarrow> string option \<Rightarrow> string option \<Rightarrow> real
     \<Rightarrow> transport_mode \<Rightarrow> py_error + xreal" where
  "get_edge_weight G td u v key tp etp base_distance m =
     (case edge_lookup G u v key of
        Inl e \<Rightarrow> Inl e
      | Inr data \<Rightarrow>
          if \<not> road_allowed m data then Inr PInf
          else
            let cap = capacity_of data;
                traffic_flow = traffic_flow_of td tp etp u v cap;
                speed = effective_speed m traffic_flow cap;
                distance_km = base_distance / 1000;
                time_minutes = (distance_km / speed) * 60
            in Inr (Fin time_minutes))"

section \<open>Properties of the edge weight\<close>

lemma traffic_factor_bounds: "1 / 2 \<le> traffic_factor flow cap \<and> traffic_factor flow cap \<le> 3 / 2"
  by (simp add: traffic_factor_def max_def min_def)

lemma traffic_factor_pos: "0 < traffic_factor flow cap"
  using traffic_factor_bounds [of flow cap] by linarith

lemma base_speeds_pos: "0 < base_speeds m"
  by (cases m) (simp_all add: base_speeds_def)

lemma effective_speed_pos: "0 < effective_speed m tf cap"
  by (auto simp: effective_speed_def base_speeds_pos traffic_factor_pos split: option.splits)

text \<open>
  Claim C8. For the modes car, bus and emergency, whenever a flow value is available (found
  in the traffic table or defaulted to the capacity), the factor that \<open>get_edge_weight\<close>
  applies lies between 0.5 and 1.5, and the weight is computed at the speed
  \<open>base_speed / factor\<close>.
\<close>

theorem get_edge_weight_traffic_factor:
  assumes "m \<noteq> Metro"
    and "edge_lookup G u v key = Inr data"
    and "road_allowed m data"
    and "0 < capacity_of data"
    and "traffic_flow_of td tp etp u v (capacity_of data) = Some flow"
  shows "1 / 2 \<le> traffic_factor flow (capacity_of data)
       \<and> traffic_factor flow (capacity_of data) \<le> 3 / 2
       \<and> traffic_factor flow (capacity_of data) = max (1 / 2) (min (flow / capacity_of data) (3 / 2))
       \<and> effective_speed m (Some flow) (capacity_of data)
           = base_speeds m / traffic_factor flow (capacity_of data)
       \<and> get_edge_weight G td u v key tp etp base_distance m
           = Inr (Fin ((base_distance / 1000)
                        / (base_speeds m / traffic_factor flow (capacity_of data)) * 60))"
proof -
  have mode: "m \<in> {Car, Bus, Emergency}"
    using assms(1) by (cases m) simp_all
  have speed: "effective_speed m (Some flow) (capacity_of data)
                 = base_speeds m / traffic_factor flow (capacity_of data)"
    using mode by (simp add: effective_speed_def)
  have factor: "traffic_factor flow (capacity_of data)
                  = max (1 / 2) (min (flow / capacity_of data) (3 / 2))"
    using assms(4) by (simp add: traffic_factor_def)
  have weight: "get_edge_weight G td u v key tp etp base_distance m
      = Inr (Fin ((base_distance / 1000)
                   / (base_speeds m / traffic_factor flow (capacity_of data)) * 60))"
    using assms(2,3,5) speed by (simp add: get_edge_weight_def Let_def)
  show ?thesis
    using traffic_factor_bounds [of flow "capacity_of data"] speed factor weight by blast
qed


text \<open>Example inputs: an attribute dictionary, and a graph of two nodes joined by one edge.\<close>

definition road_edge :: "real \<Rightarrow> real \<Rightarrow> string \<Rightarrow> edge_data" where
  "road_edge d c rt =
     \<lparr>distance = Some d, capacity = Some c, condition = None, road_type = Some rt, cost = None\<rparr>"

definition single_edge_graph :: "node \<Rightarrow> node \<Rightarrow> edge_data \<Rightarrow> graph" where
  "single_edge_graph a b data = \<lparr>gnodes = [a, b], gpos = Map.empty, gedges = [(a, b, 0, data)]\<rparr>"

lemma single_edge_lookup:
  "edge_lookup (single_edge_graph a b data) a b 0 = Inr data"
  by (simp add: edge_lookup_def single_edge_graph_def edges_between_def)

theorem get_edge_weight_traffic_factor_witness:
  "traffic_factor 1500 1000 = 3 / 2
   \<and> get_edge_weight (single_edge_graph ''A'' ''B'' (road_edge 1000 1000 ''existing''))
        [''morning'' \<mapsto> [(''A'', ''B'') \<mapsto> 1500]] ''A'' ''B'' 0 (Some ''Morning'') None 1000 Car
      = Inr (Fin (3 / 4))"
proof -
  have flow: "traffic_flow_of [''morning'' \<mapsto> [(''A'', ''B'') \<mapsto> 1500]] (Some ''Morning'') None
                ''A'' ''B'' (capacity_of (road_edge 1000 1000 ''existing'')) = Some 1500"
    by (simp add: traffic_flow_of_def truthy_def traffic_lookup_def lower_def lower_char_def
        capacity_of_def road_edge_def)
  have allowed: "road_allowed Car (road_edge 1000 1000 ''existing'')"
    by (simp add: road_allowed_def road_edge_def allowed_road_types_def)
  have cap: "0 < capacity_of (road_edge 1000 1000 ''existing'')"
    by (simp add: capacity_of_def road_edge_def)
  have mode: "Car \<noteq> Metro" by simp
  show ?thesis
    using get_edge_weight_traffic_factor [OF mode single_edge_lookup allowed cap flow, of 1000]
    by (simp add: capacity_of_def road_edge_def base_speeds_def)
qed




section \<open>Road maintenance allocation (\<^verbatim>\<open>algorithms/dynamic_programming/dp_solutions.py\<close>)\<close>

text \<open>
  The rows of the input tables, with the columns the modelled functions read. The
  identifier columns hold the identifiers as the code uses them after \<^verbatim>\<open>str(...).strip()\<close>;
  the numeric columns hold the values after \<^verbatim>\<open>float(...)\<close>.
\<close>

record existing_road_row =
  er_from :: string
  er_to :: string
  er_distance_km :: real
  er_capacity :: real
  er_condition :: real

record neighborhood_row =
  nb_id :: string
  nb_population :: real
  nb_x :: real
  nb_y :: real

text \<open>The dictionary built for each road (lines 226 to 235, 251 and 254).\<close>

record road =
  road_id :: string
  from_id :: string
  to_id :: string
  distance_km :: real
  current_condition :: real
  maintenance_priority :: real
  maintenance_cost :: real
  benefit :: real
  affected_population :: real
  population_adjusted_benefit :: real

record maintenance_plan =
  total_budget :: real
  used_budget :: real
  total_benefit :: real
  roads_to_maintain :: "road list"

text \<open>\<^verbatim>\<open>int(x)\<close> on a float: truncation towards zero.\<close>

definition int_trunc :: "real \<Rightarrow> int" where
  "int_trunc x = (if 0 \<le> x then \<lfloor>x\<rfloor> else \<lceil>x\<rceil>)"

text \<open>
  A dictionary filled row by row: a later row with the same key replaces an earlier one.
\<close>

definition population_by_id :: "neighborhood_row list \<Rightarrow> (string \<rightharpoonup> real)" where
  "population_by_id nbs = map_of (rev (map (\<lambda>r. (nb_id r, nb_population r)) nbs))"

definition get_population :: "(string \<rightharpoonup> real) \<Rightarrow> string \<Rightarrow> real" where
  "get_population pop i = (case pop i of None \<Rightarrow> 0 | Some p \<Rightarrow> p)"

definition make_road :: "existing_road_row \<Rightarrow> road" where
  "make_road row =
     (let distance_km = er_distance_km row;
          condition = er_condition row;
          maintenance_priority = (10 - condition) * distance_km;
          maintenance_cost = distance_km * (11 - condition) / 10;
          condition_improvement = max 0 (9 - condition);
          benefit = condition_improvement * distance_km
      in \<lparr>road_id = er_from row @ ''-'' @ er_to row,
          from_id = er_from row,
          to_id = er_to row,
          distance_km = distance_km,
          current_condition = condition,
          maintenance_priority = maintenance_priority,
          maintenance_cost = maintenance_cost,
          benefit = benefit,
          affected_population = 0,
          population_adjusted_benefit = 0\<rparr>)"

definition adjust_by_population :: "(string \<rightharpoonup> real) \<Rightarrow> road \<Rightarrow> road" where
  "adjust_by_population pop r =
     (let from_pop = get_population pop (from_id r);
          to_pop = get_population pop (to_id r);
          affected = from_pop + to_pop
      in r\<lparr>affected_population := affected,
            population_adjusted_benefit := benefit r * (affected / 100000)\<rparr>)"

text \<open>
  Lines 203 to 254: the roads, sorted by descending priority (the sort is stable), each with
  its population-adjusted benefit.
\<close>

definition maintenance_roads :: "existing_road_row list \<Rightarrow> neighborhood_row list \<Rightarrow> road list" where
  "maintenance_roads rows nbs =
     map (adjust_by_population (population_by_id nbs))
       (sort_key (\<lambda>r. - maintenance_priority r) (map make_road rows))"

definition cost_units :: "road \<Rightarrow> int" where
  "cost_units r = int_trunc (maintenance_cost r * 10)"

text \<open>The body of the inner loop, lines 271 to 274, at budget level \<open>b\<close>.\<close>

definition knapsack_step ::
  "road \<Rightarrow> nat \<Rightarrow> real list \<times> string list list \<Rightarrow> nat \<Rightarrow> real list \<times> string list list" where
  "knapsack_step r c st b =
     (case st of (dp, selected_roads) \<Rightarrow>
        let new_benefit = dp ! (b - c) + population_adjusted_benefit r
        in if new_benefit > dp ! b
           then (dp[b := new_benefit],
                 selected_roads[b := selected_roads ! (b - c) @ [road_id r]])
           else (dp, selected_roads))"

text \<open>
  One round of the outer loop, lines 265 to 274: a road of at most zero cost units is
  skipped, otherwise \<open>b\<close> runs over \<^verbatim>\<open>range(budget_units, cost_units - 1, -1)\<close>.
\<close>

definition fill_road ::
  "nat \<Rightarrow> real list \<times> string list list \<Rightarrow> road \<Rightarrow> real list \<times> string list list" where
  "fill_road budget_units st r =
     (if cost_units r \<le> 0 then st
      else foldl (knapsack_step r (nat (cost_units r))) st
             (rev [nat (cost_units r) ..< budget_units + 1]))"

definition fill_table :: "nat \<Rightarrow> road list \<Rightarrow> real list \<times> string list list" where
  "fill_table budget_units roads =
     foldl (fill_road budget_units)
       (replicate (budget_units + 1) 0, replicate (budget_units + 1) []) roads"

text \<open>\<^verbatim>\<open>max(range(...), key=...)\<close> returns the first element whose key is maximal.\<close>

fun py_max_key :: "('a \<Rightarrow> real) \<Rightarrow> 'a \<Rightarrow> 'a list \<Rightarrow> 'a" where
  "py_max_key f best [] = best"
| "py_max_key f best (x # xs) = py_max_key f (if f x > f best then x else best) xs"

text \<open>
  Lines 289 and 290: the details of each selected identifier are those of the first road
  with that identifier; \<^verbatim>\<open>next\<close> raises \<^verbatim>\<open>StopIteration\<close> when there is none.
\<close>

fun lookup_roads :: "road list \<Rightarrow> string list \<Rightarrow> py_error + road list" where
  "lookup_roads roads [] = Inr []"
| "lookup_roads roads (i # ids) =
     (case find (\<lambda>r. road_id r = i) roads of
        None \<Rightarrow> Inl StopIteration
      | Some r \<Rightarrow>
          (case lookup_roads roads ids of Inl e \<Rightarrow> Inl e | Inr rs \<Rightarrow> Inr (r # rs)))"

text \<open>
  \<^verbatim>\<open>allocate_road_maintenance_resources\<close>. With a negative number of budget units the
  table is empty and \<^verbatim>\<open>max\<close> of the empty range raises \<^verbatim>\<open>ValueError\<close>. The execution time
  that the function also returns is left out.
\<close>

definition allocate_road_maintenance_resources ::
  "existing_road_row list \<Rightarrow> neighborhood_row list \<Rightarrow> real \<Rightarrow> py_error + maintenance_plan" where
  "allocate_road_maintenance_resources rows nbs budget =
     (let roads = maintenance_roads rows nbs;
          budget_units = int_trunc (budget * 10)
      in if budget_units < 0 then Inl ValueError
         else
           (case fill_table (nat budget_units) roads of (dp, selected_roads) \<Rightarrow>
              let optimal_budget_units =
                    py_max_key (\<lambda>b. dp ! b) 0 [1 ..< nat budget_units + 1];
                  optimal_roads = selected_roads ! optimal_budget_units
              in case lookup_roads roads optimal_roads of
                   Inl e \<Rightarrow> Inl e
                 | Inr details \<Rightarrow>
                     Inr \<lparr>total_budget = budget,
                          used_budget = real optimal_budget_units / 10,
                          total_benefit = dp ! optimal_budget_units,
                          roads_to_maintain = details\<rparr>))"

text \<open>The discretized cost and the benefit of a selection of roads.\<close>

definition total_units :: "road list \<Rightarrow> int" where
  "total_units sel = sum_list (map cost_units sel)"

definition total_pab :: "road list \<Rightarrow> real" where
  "total_pab sel = sum_list (map population_adjusted_benefit sel)"


section \<open>Optimality of the allocation\<close>

text \<open>
  \<open>improves r c k dp i\<close>: the inner loop for road \<open>r\<close> of cost \<open>c\<close>, run over the levels
  below \<open>k\<close>, replaces the entry at level \<open>i\<close>.
\<close>

definition improves :: "road \<Rightarrow> nat \<Rightarrow> nat \<Rightarrow> real list \<Rightarrow> nat \<Rightarrow> bool" where
  "improves r c k dp i \<longleftrightarrow>
     c \<le> i \<and> i < k \<and> dp ! (i - c) + population_adjusted_benefit r > dp ! i"

lemma inner_loop:
  assumes "0 < c" and "k \<le> length dp" and "length sel = length dp"
  shows "\<exists>dp' sel'. foldl (knapsack_step r c) (dp, sel) (rev [c..<k]) = (dp', sel')
     \<and> length dp' = length dp \<and> length sel' = length dp
     \<and> (\<forall>i<length dp.
          dp' ! i = (if improves r c k dp i then dp ! (i - c) + population_adjusted_benefit r
                     else dp ! i)
        \<and> sel' ! i = (if improves r c k dp i then sel ! (i - c) @ [road_id r] else sel ! i))"
  using assms
proof (induction k arbitrary: dp sel)
  case 0
  then show ?case by (simp add: improves_def)
next
  case (Suc k)
  show ?case
  proof (cases "c \<le> k")
    case False
    then have "[c..<Suc k] = []" by simp
    moreover have "\<And>i. \<not> improves r c (Suc k) dp i"
      using False by (auto simp: improves_def)
    ultimately show ?thesis using Suc.prems by simp
  next
    case True
    obtain dp1 sel1 where st1: "knapsack_step r c (dp, sel) k = (dp1, sel1)"
      by (cases "knapsack_step r c (dp, sel) k") auto
    have len1: "length dp1 = length dp" "length sel1 = length dp"
      using st1 Suc.prems by (auto simp: knapsack_step_def Let_def split: if_splits)
    have dp1: "\<And>i. i < length dp \<Longrightarrow> dp1 ! i =
        (if i = k \<and> improves r c (Suc k) dp k then dp ! (k - c) + population_adjusted_benefit r
         else dp ! i)"
      using st1 True Suc.prems
      by (auto simp: knapsack_step_def Let_def improves_def split: if_splits)
    have sel1: "\<And>i. i < length dp \<Longrightarrow> sel1 ! i =
        (if i = k \<and> improves r c (Suc k) dp k then sel ! (k - c) @ [road_id r]
         else sel ! i)"
      using st1 True Suc.prems
      by (auto simp: knapsack_step_def Let_def improves_def split: if_splits)
    have "k \<le> length dp1" "length sel1 = length dp1"
      using len1 Suc.prems by simp_all
    from Suc.IH [OF Suc.prems(1) this]
    obtain dp' sel' where res:
      "foldl (knapsack_step r c) (dp1, sel1) (rev [c..<k]) = (dp', sel')"
      "length dp' = length dp1" "length sel' = length dp1"
      "\<forall>i<length dp1.
          dp' ! i = (if improves r c k dp1 i then dp1 ! (i - c) + population_adjusted_benefit r
                     else dp1 ! i)
        \<and> sel' ! i = (if improves r c k dp1 i then sel1 ! (i - c) @ [road_id r] else sel1 ! i)"
      by blast
    have fold: "foldl (knapsack_step r c) (dp, sel) (rev [c..<Suc k]) = (dp', sel')"
      using True st1 res(1) by simp
    have imp_lt: "\<And>i. i < k \<Longrightarrow> improves r c k dp1 i = improves r c (Suc k) dp i"
      using dp1 Suc.prems(1,2) by (auto simp: improves_def)
    have imp_ge: "\<And>i. k \<le> i \<Longrightarrow> \<not> improves r c k dp1 i"
      by (simp add: improves_def)
    have imp_gt: "\<And>i. k < i \<Longrightarrow> \<not> improves r c (Suc k) dp i"
      by (simp add: improves_def)
    have point: "\<forall>i<length dp.
          dp' ! i = (if improves r c (Suc k) dp i
                     then dp ! (i - c) + population_adjusted_benefit r else dp ! i)
        \<and> sel' ! i = (if improves r c (Suc k) dp i
                       then sel ! (i - c) @ [road_id r] else sel ! i)"
    proof (intro allI impI)
      fix i assume i: "i < length dp"
      consider "i < k" | "i = k" | "k < i" by linarith
      then show "dp' ! i = (if improves r c (Suc k) dp i
                     then dp ! (i - c) + population_adjusted_benefit r else dp ! i)
        \<and> sel' ! i = (if improves r c (Suc k) dp i
                       then sel ! (i - c) @ [road_id r] else sel ! i)"
      proof cases
        case 1
        then have "i - c < length dp" "i - c \<noteq> k" using i by simp_all
        then show ?thesis
          using res(4) len1 i 1 imp_lt [OF 1] dp1 [of i] sel1 [of i] dp1 [of "i - c"] sel1 [of "i - c"]
          by auto
      next
        case 2
        then show ?thesis
          using res(4) len1 i imp_ge [of i] dp1 [of i] sel1 [of i] by auto
      next
        case 3
        then show ?thesis
          using res(4) len1 i imp_ge [of i] imp_gt [of i] dp1 [of i] sel1 [of i] by auto
      qed
    qed
    show ?thesis using fold res(2,3) len1 point by simp
  qed
qed


text \<open>
  The roads that the outer loop does not skip, and the invariant of the table: the entry
  at level \<open>b\<close> is the benefit of a selection of cost at most \<open>b\<close>, the recorded
  identifiers are those of that selection, and no selection of cost at most \<open>b\<close> has a
  larger benefit.
\<close>

definition positive_roads :: "road list \<Rightarrow> road list" where
  "positive_roads roads = filter (\<lambda>r. 0 < cost_units r) roads"

definition best_at :: "road list \<Rightarrow> nat \<Rightarrow> real \<Rightarrow> string list \<Rightarrow> bool" where
  "best_at ps b v ids \<longleftrightarrow>
     (\<exists>sel \<in> set (subseqs ps). map road_id sel = ids \<and> total_units sel \<le> int b \<and> total_pab sel = v)
   \<and> (\<forall>sub \<in> set (subseqs ps). total_units sub \<le> int b \<longrightarrow> total_pab sub \<le> v)"

definition table_inv :: "nat \<Rightarrow> road list \<Rightarrow> real list \<times> string list list \<Rightarrow> bool" where
  "table_inv B ps st \<longleftrightarrow>
     (case st of (dp, sel) \<Rightarrow>
        length dp = B + 1 \<and> length sel = B + 1
      \<and> (\<forall>b \<le> B. best_at (positive_roads ps) b (dp ! b) (sel ! b)))"

lemma subseqs_snoc:
  "set (subseqs (xs @ [r])) = set (subseqs xs) \<union> (\<lambda>s. s @ [r]) ` set (subseqs xs)"
  by (induction xs) (auto simp: Let_def)

lemma best_at_snoc:
  assumes c: "0 < c" "cost_units r = int c"
    and nn: "\<forall>x \<in> set ps. 0 \<le> cost_units x"
    and old: "best_at ps b v ids"
    and sub: "c \<le> b \<Longrightarrow> best_at ps (b - c) v0 ids0"
  shows "best_at (ps @ [r]) b
           (if c \<le> b \<and> v0 + population_adjusted_benefit r > v
            then v0 + population_adjusted_benefit r else v)
           (if c \<le> b \<and> v0 + population_adjusted_benefit r > v
            then ids0 @ [road_id r] else ids)"
proof (cases "c \<le> b \<and> v0 + population_adjusted_benefit r > v")
  case True
  then have cb: "c \<le> b" and better: "v0 + population_adjusted_benefit r > v" by simp_all
  from sub [OF cb] obtain sel0 where sel0: "sel0 \<in> set (subseqs ps)" "map road_id sel0 = ids0"
      "total_units sel0 \<le> int (b - c)" "total_pab sel0 = v0"
    and ub0: "\<forall>s \<in> set (subseqs ps). total_units s \<le> int (b - c) \<longrightarrow> total_pab s \<le> v0"
    unfolding best_at_def by blast
  have ub: "\<forall>s \<in> set (subseqs ps). total_units s \<le> int b \<longrightarrow> total_pab s \<le> v"
    using old unfolding best_at_def by blast
  have ex: "\<exists>sel \<in> set (subseqs (ps @ [r])). map road_id sel = ids0 @ [road_id r]
        \<and> total_units sel \<le> int b \<and> total_pab sel = v0 + population_adjusted_benefit r"
  proof (rule bexI [of _ "sel0 @ [r]"])
    show "sel0 @ [r] \<in> set (subseqs (ps @ [r]))" using sel0(1) by (simp add: subseqs_snoc)
    show "map road_id (sel0 @ [r]) = ids0 @ [road_id r]
        \<and> total_units (sel0 @ [r]) \<le> int b
        \<and> total_pab (sel0 @ [r]) = v0 + population_adjusted_benefit r"
      using sel0 c cb by (simp add: total_units_def total_pab_def)
  qed
  have all: "\<forall>s \<in> set (subseqs (ps @ [r])). total_units s \<le> int b
        \<longrightarrow> total_pab s \<le> v0 + population_adjusted_benefit r"
  proof (intro ballI impI)
    fix s assume s: "s \<in> set (subseqs (ps @ [r]))" and fit: "total_units s \<le> int b"
    from s consider "s \<in> set (subseqs ps)" | s' where "s = s' @ [r]" "s' \<in> set (subseqs ps)"
      by (auto simp: subseqs_snoc)
    then show "total_pab s \<le> v0 + population_adjusted_benefit r"
    proof cases
      case 1
      then show ?thesis using ub fit better by fastforce
    next
      case 2
      then have "total_units s' \<le> int (b - c)"
        using fit c cb by (simp add: total_units_def)
      then have "total_pab s' \<le> v0" using ub0 2(2) by blast
      then show ?thesis using 2(1) by (simp add: total_pab_def)
    qed
  qed
  have "best_at (ps @ [r]) b (v0 + population_adjusted_benefit r) (ids0 @ [road_id r])"
    unfolding best_at_def using ex all by blast
  then show ?thesis using True by simp
next
  case False
  obtain sel where sel: "sel \<in> set (subseqs ps)" "map road_id sel = ids"
      "total_units sel \<le> int b" "total_pab sel = v"
    and ub: "\<forall>s \<in> set (subseqs ps). total_units s \<le> int b \<longrightarrow> total_pab s \<le> v"
    using old unfolding best_at_def by blast
  have ex: "\<exists>sel \<in> set (subseqs (ps @ [r])). map road_id sel = ids
        \<and> total_units sel \<le> int b \<and> total_pab sel = v"
    using sel by (auto simp: subseqs_snoc)
  have all: "\<forall>s \<in> set (subseqs (ps @ [r])). total_units s \<le> int b \<longrightarrow> total_pab s \<le> v"
  proof (intro ballI impI)
    fix s assume s: "s \<in> set (subseqs (ps @ [r]))" and fit: "total_units s \<le> int b"
    from s consider "s \<in> set (subseqs ps)" | s' where "s = s' @ [r]" "s' \<in> set (subseqs ps)"
      by (auto simp: subseqs_snoc)
    then show "total_pab s \<le> v"
    proof cases
      case 1
      then show ?thesis using ub fit by blast
    next
      case 2
      have units: "total_units s' + int c \<le> int b"
        using fit 2(1) c by (simp add: total_units_def)
      have "set s' \<subseteq> set ps"
        using 2(2) subseqs_powset [of ps] by blast
      then have "\<forall>x \<in> set s'. 0 \<le> cost_units x" using nn by blast
      then have nonneg: "0 \<le> total_units s'"
        unfolding total_units_def by (intro sum_list_nonneg) auto
      then have cb: "c \<le> b" using units by linarith
      have "total_units s' \<le> int (b - c)" using units cb by simp
      moreover from sub [OF cb]
      have "\<forall>s \<in> set (subseqs ps). total_units s \<le> int (b - c) \<longrightarrow> total_pab s \<le> v0"
        unfolding best_at_def by blast
      ultimately have "total_pab s' \<le> v0" using 2(2) by blast
      moreover have "v0 + population_adjusted_benefit r \<le> v" using False cb by simp
      ultimately show ?thesis using 2(1) by (simp add: total_pab_def)
    qed
  qed
  have "best_at (ps @ [r]) b v ids"
    unfolding best_at_def using ex all by blast
  then show ?thesis using False by auto
qed


lemma positive_roads_nonneg: "\<forall>x \<in> set (positive_roads ps). 0 \<le> cost_units x"
  by (auto simp: positive_roads_def)

lemma fill_road_inv:
  assumes "table_inv B ps st"
  shows "table_inv B (ps @ [r]) (fill_road B st r)"
proof (cases "cost_units r \<le> 0")
  case True
  then show ?thesis using assms by (simp add: fill_road_def table_inv_def positive_roads_def)
next
  case False
  define c where "c = nat (cost_units r)"
  have c: "0 < c" "cost_units r = int c" using False by (simp_all add: c_def)
  obtain dp sel where st: "st = (dp, sel)" by (cases st)
  have len: "length dp = B + 1" "length sel = B + 1"
    and best: "\<And>b. b \<le> B \<Longrightarrow> best_at (positive_roads ps) b (dp ! b) (sel ! b)"
    using assms st by (auto simp: table_inv_def)
  have "B + 1 \<le> length dp" "length sel = length dp" using len by simp_all
  from inner_loop [OF c(1) this, of r]
  obtain dp' sel' where res:
    "foldl (knapsack_step r c) (dp, sel) (rev [c..<B + 1]) = (dp', sel')"
    "length dp' = length dp" "length sel' = length dp"
    "\<forall>i<length dp.
        dp' ! i = (if improves r c (B + 1) dp i
                   then dp ! (i - c) + population_adjusted_benefit r else dp ! i)
      \<and> sel' ! i = (if improves r c (B + 1) dp i then sel ! (i - c) @ [road_id r] else sel ! i)"
    by blast
  have fr: "fill_road B st r = (dp', sel')"
    using False res(1) st by (simp add: fill_road_def c_def)
  have pr: "positive_roads (ps @ [r]) = positive_roads ps @ [r]"
    using False by (simp add: positive_roads_def)
  have "best_at (positive_roads ps @ [r]) b (dp' ! b) (sel' ! b)" if b: "b \<le> B" for b
  proof -
    have sub: "c \<le> b \<Longrightarrow> best_at (positive_roads ps) (b - c) (dp ! (b - c)) (sel ! (b - c))"
      using best [of "b - c"] b by simp
    have imp: "improves r c (B + 1) dp b
        \<longleftrightarrow> c \<le> b \<and> dp ! (b - c) + population_adjusted_benefit r > dp ! b"
      using b by (auto simp: improves_def)
    have "dp' ! b = (if c \<le> b \<and> dp ! (b - c) + population_adjusted_benefit r > dp ! b
                     then dp ! (b - c) + population_adjusted_benefit r else dp ! b)"
      and "sel' ! b = (if c \<le> b \<and> dp ! (b - c) + population_adjusted_benefit r > dp ! b
                       then sel ! (b - c) @ [road_id r] else sel ! b)"
      using res(4) b len imp by simp_all
    then show ?thesis
      using best_at_snoc [OF c positive_roads_nonneg best [OF b] sub] by simp
  qed
  then show ?thesis
    using fr pr res(2,3) len by (simp add: table_inv_def)
qed

lemma fill_roads_inv:
  "table_inv B ps st \<Longrightarrow> table_inv B (ps @ rs) (foldl (fill_road B) st rs)"
proof (induction rs arbitrary: ps st)
  case Nil
  then show ?case by simp
next
  case (Cons r rs)
  from Cons.IH [OF fill_road_inv [OF Cons.prems, of r]]
  show ?case by simp
qed

lemma fill_table_inv: "table_inv B roads (fill_table B roads)"
proof -
  have "\<And>b. b \<le> B \<Longrightarrow> replicate (B + 1) (0::real) ! b = 0"
    and "\<And>b. b \<le> B \<Longrightarrow> replicate (B + 1) ([]::string list) ! b = []"
    by (simp_all del: replicate_Suc replicate.simps)
  then have "table_inv B [] (replicate (B + 1) 0, replicate (B + 1) [])"
    by (simp add: table_inv_def best_at_def positive_roads_def total_units_def total_pab_def
        del: replicate_Suc replicate.simps)
  from fill_roads_inv [OF this, of roads] show ?thesis
    by (simp add: fill_table_def)
qed

lemma py_max_key_best:
  "py_max_key f best xs \<in> set (best # xs)
   \<and> (\<forall>x \<in> set (best # xs). f x \<le> f (py_max_key f best xs))"
proof (induction xs arbitrary: best)
  case Nil
  then show ?case by simp
next
  case (Cons x xs)
  show ?case
    using Cons.IH [of "if f x > f best then x else best"]
    by (auto split: if_splits)
qed

lemma lookup_roads_ids:
  assumes "set sel \<subseteq> set roads"
  shows "\<exists>details. lookup_roads roads (map road_id sel) = Inr details
           \<and> map road_id details = map road_id sel
           \<and> (distinct (map road_id roads) \<longrightarrow> details = sel)"
  using assms
proof (induction sel)
  case Nil
  then show ?case by simp
next
  case (Cons r sel)
  then obtain details where d: "lookup_roads roads (map road_id sel) = Inr details"
      "map road_id details = map road_id sel" "distinct (map road_id roads) \<longrightarrow> details = sel"
    by auto
  have rin: "r \<in> set roads" using Cons.prems by simp
  then obtain x where x: "find (\<lambda>q. road_id q = road_id r) roads = Some x"
    by (cases "find (\<lambda>q. road_id q = road_id r) roads") (auto simp: find_None_iff)
  then have xr: "road_id x = road_id r" "x \<in> set roads"
    by (auto simp: find_Some_iff)
  have "distinct (map road_id roads) \<longrightarrow> x = r"
    using xr rin by (auto simp: distinct_map inj_on_def)
  then show ?case using d x xr by auto
qed


lemma allocate_general:
  assumes bu: "0 \<le> int_trunc (budget * 10)"
  shows "\<exists>plan sel.
      allocate_road_maintenance_resources rows nbs budget = Inr plan
    \<and> sel \<in> set (subseqs (positive_roads (maintenance_roads rows nbs)))
    \<and> map road_id (roads_to_maintain plan) = map road_id sel
    \<and> (distinct (map road_id (maintenance_roads rows nbs)) \<longrightarrow> roads_to_maintain plan = sel)
    \<and> total_units sel \<le> int_trunc (budget * 10)
    \<and> total_pab sel = total_benefit plan
    \<and> (\<forall>sub \<in> set (subseqs (positive_roads (maintenance_roads rows nbs))).
          total_units sub \<le> int_trunc (budget * 10) \<longrightarrow> total_pab sub \<le> total_benefit plan)"
proof -
  define roads where "roads = maintenance_roads rows nbs"
  define B where "B = nat (int_trunc (budget * 10))"
  have B: "int B = int_trunc (budget * 10)" using bu by (simp add: B_def)
  obtain dp selected where ft: "fill_table B roads = (dp, selected)"
    by (cases "fill_table B roads")
  have inv: "\<And>b. b \<le> B \<Longrightarrow> best_at (positive_roads roads) b (dp ! b) (selected ! b)"
    using fill_table_inv [of B roads] ft by (simp add: table_inv_def)
  define opt where "opt = py_max_key (\<lambda>b. dp ! b) 0 [1 ..< B + 1]"
  have "opt \<in> set (0 # [1 ..< B + 1])"
    and mx: "\<forall>x \<in> set (0 # [1 ..< B + 1]). dp ! x \<le> dp ! opt"
    using py_max_key_best [of "\<lambda>b. dp ! b" 0 "[1 ..< B + 1]"] by (simp_all add: opt_def)
  then have optB: "opt \<le> B" by auto
  have "B \<in> set (0 # [1 ..< B + 1])" by (cases B) auto
  then have top: "dp ! B \<le> dp ! opt" using mx by blast
  from inv [OF optB] obtain sel where sel: "sel \<in> set (subseqs (positive_roads roads))"
      "map road_id sel = selected ! opt" "total_units sel \<le> int opt" "total_pab sel = dp ! opt"
    unfolding best_at_def by blast
  have "set sel \<subseteq> set (positive_roads roads)"
    using sel(1) subseqs_powset [of "positive_roads roads"] by blast
  then have "set sel \<subseteq> set roads" by (auto simp: positive_roads_def)
  from lookup_roads_ids [OF this] obtain details where d:
      "lookup_roads roads (selected ! opt) = Inr details"
      "map road_id details = map road_id sel"
      "distinct (map road_id roads) \<longrightarrow> details = sel"
    using sel(2) by auto
  define plan where "plan = \<lparr>total_budget = budget, used_budget = real opt / 10,
      total_benefit = dp ! opt, roads_to_maintain = details\<rparr>"
  have run: "allocate_road_maintenance_resources rows nbs budget = Inr plan"
    using bu ft d(1)
    unfolding opt_def plan_def allocate_road_maintenance_resources_def Let_def
      roads_def [symmetric] B_def [symmetric]
    by (simp del: upt_Suc)
  have ub: "\<forall>sub \<in> set (subseqs (positive_roads roads)).
      total_units sub \<le> int_trunc (budget * 10) \<longrightarrow> total_pab sub \<le> total_benefit plan"
  proof (intro ballI impI)
    fix sub assume "sub \<in> set (subseqs (positive_roads roads))"
      and "total_units sub \<le> int_trunc (budget * 10)"
    then have "total_pab sub \<le> dp ! B"
      using inv [of B] B unfolding best_at_def by auto
    then show "total_pab sub \<le> total_benefit plan"
      using top by (simp add: plan_def)
  qed
  have "total_units sel \<le> int_trunc (budget * 10)"
    using sel(3) optB B by linarith
  then show ?thesis
    using run sel(1,4) d(2,3) ub unfolding roads_def [symmetric]
    by (intro exI [of _ plan] exI [of _ sel]) (simp add: plan_def)
qed











text \<open>
  What the table guarantees about a road whose maintenance cost discretizes to no budget
  unit: when no road with the identifier \<open>rid\<close> has a positive number of cost units, \<open>rid\<close> is
  not among the identifiers of the returned plan, whatever the budget.
\<close>

lemma zero_cost_identifier_not_listed:
  assumes "allocate_road_maintenance_resources rows nbs budget = Inr plan"
    and "r \<in> set (maintenance_roads rows nbs)"
    and "cost_units r \<le> 0"
    and "\<forall>q \<in> set (maintenance_roads rows nbs). road_id q = road_id r \<longrightarrow> cost_units q \<le> 0"
  shows "road_id r \<notin> set (map road_id (roads_to_maintain plan))
       \<and> r \<notin> set (roads_to_maintain plan)"
proof -
  have bu: "0 \<le> int_trunc (budget * 10)"
  proof (rule ccontr)
    assume "\<not> 0 \<le> int_trunc (budget * 10)"
    then have "allocate_road_maintenance_resources rows nbs budget = Inl ValueError"
      by (simp add: allocate_road_maintenance_resources_def Let_def)
    then show False using assms(1) by simp
  qed
  from allocate_general [OF bu, of rows nbs] assms(1)
  obtain sel where sel: "sel \<in> set (subseqs (positive_roads (maintenance_roads rows nbs)))"
      "map road_id (roads_to_maintain plan) = map road_id sel"
    by auto
  have sub: "set sel \<subseteq> set (positive_roads (maintenance_roads rows nbs))"
    using sel(1) subseqs_powset [of "positive_roads (maintenance_roads rows nbs)"] by blast
  have ids: "road_id r \<notin> set (map road_id (roads_to_maintain plan))"
  proof
    assume "road_id r \<in> set (map road_id (roads_to_maintain plan))"
    then obtain q where q: "q \<in> set sel" "road_id q = road_id r"
      unfolding sel(2) by auto
    then have "q \<in> set (maintenance_roads rows nbs)" "0 < cost_units q"
      using sub by (auto simp: positive_roads_def)
    then show False using assms(4) q(2) by fastforce
  qed
  then show ?thesis by auto
qed

text \<open>
  A road of 50 metres in the worst condition costs 0.05 million, which is 0 units, and has a
  positive benefit; it is left out of the plan although the budget is not used up.
\<close>

definition short_road_rows :: "existing_road_row list" where
  "short_road_rows =
     [\<lparr>er_from = ''X'', er_to = ''Y'', er_distance_km = 1 / 20, er_capacity = 1000, er_condition = 1\<rparr>,
      \<lparr>er_from = ''A'', er_to = ''B'', er_distance_km = 3 / 10, er_capacity = 1000, er_condition = 1\<rparr>]"

definition short_road_neighborhoods :: "neighborhood_row list" where
  "short_road_neighborhoods =
     [\<lparr>nb_id = ''X'', nb_population = 100000, nb_x = 0, nb_y = 0\<rparr>,
      \<lparr>nb_id = ''A'', nb_population = 100000, nb_x = 0, nb_y = 0\<rparr>]"

lemma short_road_metrics:
  "map (\<lambda>r. (road_id r, cost_units r, population_adjusted_benefit r))
     (maintenance_roads short_road_rows short_road_neighborhoods)
   = [(''A-B'', 3, 12 / 5), (''X-Y'', 0, 2 / 5)]"
  by code_simp

lemma short_road_plan:
  "allocate_road_maintenance_resources short_road_rows short_road_neighborhoods 1
   = Inr \<lparr>total_budget = 1, used_budget = 3 / 10, total_benefit = 12 / 5,
          roads_to_maintain =
            [\<lparr>road_id = ''A-B'', from_id = ''A'', to_id = ''B'', distance_km = 3 / 10,
              current_condition = 1, maintenance_priority = 27 / 10, maintenance_cost = 3 / 10,
              benefit = 12 / 5, affected_population = 100000,
              population_adjusted_benefit = 12 / 5\<rparr>]\<rparr>"
  by code_simp

lemma short_road_not_listed:
  "\<exists>plan r. allocate_road_maintenance_resources short_road_rows short_road_neighborhoods 1 = Inr plan
     \<and> r \<in> set (maintenance_roads short_road_rows short_road_neighborhoods)
     \<and> road_id r = ''X-Y'' \<and> cost_units r = 0 \<and> 0 < population_adjusted_benefit r
     \<and> used_budget plan < total_budget plan
     \<and> road_id r \<notin> set (map road_id (roads_to_maintain plan))"
proof -
  let ?roads = "maintenance_roads short_road_rows short_road_neighborhoods"
  have "(''X-Y'', 0, 2 / 5)
      \<in> set (map (\<lambda>r. (road_id r, cost_units r, population_adjusted_benefit r)) ?roads)"
    unfolding short_road_metrics by simp
  then obtain r where r: "r \<in> set ?roads" "road_id r = ''X-Y''" "cost_units r = 0"
      "population_adjusted_benefit r = 2 / 5"
    by auto
  have "\<forall>x \<in> set (map (\<lambda>r. (road_id r, cost_units r, population_adjusted_benefit r)) ?roads).
          fst x = ''X-Y'' \<longrightarrow> fst (snd x) \<le> 0"
    unfolding short_road_metrics by simp
  then have others: "\<forall>q \<in> set ?roads. road_id q = road_id r \<longrightarrow> cost_units q \<le> 0"
    using r(2) by simp
  have zero: "cost_units r \<le> 0" using r(3) by simp
  show ?thesis
    using zero_cost_identifier_not_listed [OF short_road_plan r(1) zero others] r short_road_plan
    by (intro exI conjI) (assumption | simp)+
qed

text \<open>
  Two rows with the identifier \<^verbatim>\<open>A-B\<close>: 90 metres in condition 1 (cost 0.09 million, which is
  0 units, priority 0.81) and 400 metres in condition 8 (cost 0.12 million, which is 1 unit,
  priority 0.8), with a budget of 1 million.
\<close>

definition shadow_rows :: "existing_road_row list" where
  "shadow_rows =
     [\<lparr>er_from = ''A'', er_to = ''B'', er_distance_km = 9 / 100, er_capacity = 1000, er_condition = 1\<rparr>,
      \<lparr>er_from = ''A'', er_to = ''B'', er_distance_km = 2 / 5, er_capacity = 1000, er_condition = 8\<rparr>]"

definition shadow_neighborhoods :: "neighborhood_row list" where
  "shadow_neighborhoods = [\<lparr>nb_id = ''A'', nb_population = 100000, nb_x = 0, nb_y = 0\<rparr>]"

definition shadow_plan :: maintenance_plan where
  "shadow_plan =
     \<lparr>total_budget = 1, used_budget = 1 / 10, total_benefit = 2 / 5,
      roads_to_maintain =
        [\<lparr>road_id = ''A-B'', from_id = ''A'', to_id = ''B'', distance_km = 9 / 100,
          current_condition = 1, maintenance_priority = 81 / 100, maintenance_cost = 9 / 100,
          benefit = 18 / 25, affected_population = 100000,
          population_adjusted_benefit = 18 / 25\<rparr>]\<rparr>"

text \<open>
  Claim C10 on this input. The loop skips the road of 0 units (lines 266 to 268) and
  selects the road of 1 unit, recorded by its identifier; lines 289 and 290 then return the
  details of the first road with that identifier, and the road of 0 units sorts first. The
  returned plan lists the road that was never selected, the one of 0 cost units.
\<close>

theorem zero_unit_road_listed:
  "map cost_units (maintenance_roads shadow_rows shadow_neighborhoods) = [0, 1]
   \<and> allocate_road_maintenance_resources shadow_rows shadow_neighborhoods 1 = Inr shadow_plan
   \<and> roads_to_maintain shadow_plan = [hd (maintenance_roads shadow_rows shadow_neighborhoods)]
   \<and> map cost_units (roads_to_maintain shadow_plan) = [0]"
  unfolding shadow_rows_def shadow_neighborhoods_def shadow_plan_def
  by code_simp


section \<open>Shortest paths (\<^verbatim>\<open>dijkstra_with_traffic\<close>)\<close>

text \<open>Comparison and addition of floats that may be infinite.\<close>

fun xless :: "xreal \<Rightarrow> xreal \<Rightarrow> bool" where
  "xless (Fin a) (Fin b) = (a < b)"
| "xless (Fin a) PInf = True"
| "xless PInf y = False"

fun xadd :: "xreal \<Rightarrow> xreal \<Rightarrow> xreal" where
  "xadd (Fin a) (Fin b) = Fin (a + b)"
| "xadd x y = PInf"

text \<open>
  The variables of the search. The dictionaries \<^verbatim>\<open>distances\<close>, \<^verbatim>\<open>previous\<close> and
  \<^verbatim>\<open>edge_keys\<close> have the nodes of the graph as keys and are read at nodes only (the
  neighbours of a node are nodes), so they are total functions here; \<open>status\<close> records
  whether the loop is running, was left by \<^verbatim>\<open>break\<close>, or raised.
\<close>

datatype loop_status = Running | Broke | Raised py_error

record search_state =
  distances :: "node \<Rightarrow> xreal"
  previous :: "node \<Rightarrow> node option"
  edge_keys :: "node \<Rightarrow> (node \<rightharpoonup> nat)"
  pq :: "(real \<times> node) list"
  status :: loop_status

text \<open>
  \<^verbatim>\<open>heapq.heappop\<close> removes the least tuple, compared by distance and then by node;
  \<^verbatim>\<open>heapq.heappush\<close> adds one. The heap is kept as the list of its entries.
\<close>

definition heappop :: "(real \<times> node) list \<Rightarrow> (real \<times> node) \<times> (real \<times> node) list" where
  "heappop h = (let m = Min (set h) in (m, remove1 m h))"

definition heappush :: "(real \<times> node) list \<Rightarrow> real \<times> node \<Rightarrow> (real \<times> node) list" where
  "heappush h x = h @ [x]"

text \<open>The pairs \<open>(neighbor, key, data)\<close> that the two nested loops at lines 145 and 146 visit.\<close>

definition edge_items :: "graph \<Rightarrow> node \<Rightarrow> (node \<times> nat \<times> edge_data) list" where
  "edge_items G u = concat (map (\<lambda>(v, es). map (\<lambda>(k, d). (v, k, d)) es) (adj G u))"

text \<open>\<^verbatim>\<open>data.get('distance', 1000)\<close>\<close>

definition distance_of :: "edge_data \<Rightarrow> real" where
  "distance_of data = (case distance data of None \<Rightarrow> 1000 | Some d \<Rightarrow> d)"

text \<open>Lines 147 to 160, for one edge of \<open>current_node\<close>.\<close>

definition relax_edge ::
  "graph \<Rightarrow> traffic \<Rightarrow> string option \<Rightarrow> string option \<Rightarrow> transport_mode \<Rightarrow> node
     \<Rightarrow> search_state \<Rightarrow> node \<times> nat \<times> edge_data \<Rightarrow> search_state" where
  "relax_edge G td tp etp m current_node s item =
     (case item of (neighbor, key, data) \<Rightarrow>
        if status s \<noteq> Running then s
        else
          let base_distance = distance_of data
          in case get_edge_weight G td current_node neighbor key tp etp base_distance m of
               Inl e \<Rightarrow> s\<lparr>status := Raised e\<rparr>
             | Inr weight \<Rightarrow>
                 if weight = PInf then s
                 else
                   (case xadd (distances s current_node) weight of
                      PInf \<Rightarrow> s
                    | Fin new_distance \<Rightarrow>
                        if xless (Fin new_distance) (distances s neighbor)
                        then s\<lparr>distances := (distances s)(neighbor := Fin new_distance),
                               previous := (previous s)(neighbor := Some current_node),
                               edge_keys := (edge_keys s)
                                 (neighbor := (edge_keys s neighbor)(current_node \<mapsto> key)),
                               pq := heappush (pq s) (new_distance, neighbor)\<rparr>
                        else s))"

text \<open>One round of the loop at line 136.\<close>

definition dijkstra_step ::
  "graph \<Rightarrow> traffic \<Rightarrow> node \<Rightarrow> string option \<Rightarrow> string option \<Rightarrow> transport_mode
     \<Rightarrow> search_state \<Rightarrow> search_state" where
  "dijkstra_step G td end_node tp etp m s =
     (case heappop (pq s) of ((current_distance, current_node), rest) \<Rightarrow>
        let s1 = s\<lparr>pq := rest\<rparr>
        in if current_node = end_node then s1\<lparr>status := Broke\<rparr>
           else if xless (distances s1 current_node) (Fin current_distance) then s1
           else if current_node \<notin> set (gnodes G) then s1\<lparr>status := Raised KeyError\<rparr>
           else foldl (relax_edge G td tp etp m current_node) s1 (edge_items G current_node))"

definition dijkstra_init :: "node \<Rightarrow> search_state" where
  "dijkstra_init start =
     \<lparr>distances = (\<lambda>n. PInf)(start := Fin 0),
      previous = (\<lambda>n. None),
      edge_keys = (\<lambda>n. Map.empty),
      pq = [(0, start)],
      status = Running\<rparr>"

definition dijkstra_loop ::
  "graph \<Rightarrow> traffic \<Rightarrow> node \<Rightarrow> string option \<Rightarrow> string option \<Rightarrow> transport_mode
     \<Rightarrow> search_state \<Rightarrow> search_state option" where
  "dijkstra_loop G td end_node tp etp m =
     while_option (\<lambda>s. pq s \<noteq> [] \<and> status s = Running) (dijkstra_step G td end_node tp etp m)"

text \<open>
  The reconstruction loop, lines 169 to 178. \<open>rcurrent\<close> is \<^verbatim>\<open>current\<close>, which becomes
  \<^verbatim>\<open>None\<close> at the start node; the path is collected from the end node backwards.
\<close>

record walk_state =
  rcurrent :: "node option"
  rpath :: "node list"
  rtime :: xreal
  rdistance :: real
  rerror :: "py_error option"

definition walk_step ::
  "graph \<Rightarrow> traffic \<Rightarrow> string option \<Rightarrow> string option \<Rightarrow> transport_mode \<Rightarrow> search_state
     \<Rightarrow> walk_state \<Rightarrow> walk_state" where
  "walk_step G td tp etp m s w =
     (case rcurrent w of
        None \<Rightarrow> w
      | Some current \<Rightarrow>
          if current \<notin> set (gnodes G) then w\<lparr>rerror := Some KeyError\<rparr>
          else
            let w1 = w\<lparr>rpath := rpath w @ [current]\<rparr>;
                next_node = previous s current
            in if truthy next_node
               then (case next_node of
                       None \<Rightarrow> w1\<lparr>rcurrent := next_node\<rparr>
                     | Some nx \<Rightarrow>
                         (case edge_keys s current nx of
                            None \<Rightarrow> w1\<lparr>rerror := Some KeyError\<rparr>
                          | Some key \<Rightarrow>
                              (case edge_lookup G current nx key of
                                 Inl e \<Rightarrow> w1\<lparr>rerror := Some e\<rparr>
                               | Inr data \<Rightarrow>
                                   let base_distance = distance_of data
                                   in case get_edge_weight G td current nx key tp etp
                                             base_distance m of
                                        Inl e \<Rightarrow> w1\<lparr>rerror := Some e\<rparr>
                                      | Inr weight \<Rightarrow>
                                          w1\<lparr>rtime := xadd (rtime w1) weight,
                                             rdistance := rdistance w1 + base_distance,
                                             rcurrent := next_node\<rparr>)))
               else w1\<lparr>rcurrent := next_node\<rparr>)"

definition walk_loop ::
  "graph \<Rightarrow> traffic \<Rightarrow> string option \<Rightarrow> string option \<Rightarrow> transport_mode \<Rightarrow> search_state
     \<Rightarrow> walk_state \<Rightarrow> walk_state option" where
  "walk_loop G td tp etp m s =
     while_option (\<lambda>w. truthy (rcurrent w) \<and> rerror w = None) (walk_step G td tp etp m s)"

text \<open>
  The result of \<^verbatim>\<open>dijkstra_with_traffic\<close>, without the execution time. The function
  returns \<open>None\<close> when one of its loops does not terminate, \<open>Some (Inl e)\<close> when it raises
  \<open>e\<close>, and \<open>Some (Inr r)\<close> when it returns \<open>r\<close>.
\<close>

record route =
  path :: "node list"
  total_distance :: real
  total_travel_time :: xreal
  route_edge_keys :: "node \<Rightarrow> (node \<rightharpoonup> nat)"

definition dijkstra_with_traffic ::
  "graph \<Rightarrow> traffic \<Rightarrow> node \<Rightarrow> node \<Rightarrow> string option \<Rightarrow> string option \<Rightarrow> transport_mode
     \<Rightarrow> (py_error + route) option" where
  "dijkstra_with_traffic G td start end_node tp etp m =
     (case dijkstra_loop G td end_node tp etp m (dijkstra_init start) of
        None \<Rightarrow> None
      | Some s \<Rightarrow>
          (case status s of
             Raised e \<Rightarrow> Some (Inl e)
           | _ \<Rightarrow>
               if end_node \<notin> set (gnodes G) then Some (Inl KeyError)
               else if truthy (previous s end_node) \<or> end_node = start
               then (case walk_loop G td tp etp m s
                            \<lparr>rcurrent = Some end_node, rpath = [], rtime = Fin 0,
                             rdistance = 0, rerror = None\<rparr> of
                       None \<Rightarrow> None
                     | Some w \<Rightarrow>
                         (case rerror w of
                            Some e \<Rightarrow> Some (Inl e)
                          | None \<Rightarrow>
                              Some (Inr \<lparr>path = rev (rpath w),
                                         total_distance = rdistance w,
                                         total_travel_time = rtime w,
                                         route_edge_keys = edge_keys s\<rparr>)))
               else Some (Inr \<lparr>path = [], total_distance = 0, total_travel_time = Fin 0,
                               route_edge_keys = edge_keys s\<rparr>)))"


text \<open>The observable part of a result: the path, the total distance and the total time.\<close>

definition route_view :: "route \<Rightarrow> node list \<times> real \<times> xreal" where
  "route_view r = (path r, total_distance r, total_travel_time r)"

definition route_result ::
  "(py_error + route) option \<Rightarrow> (py_error + node list \<times> real \<times> xreal) option" where
  "route_result x = map_option (map_sum id route_view) x"

section \<open>Termination of the search and unreachable destinations\<close>

text \<open>
  \<open>allowed_rel G m\<close> relates two nodes joined by an edge whose road type the mode \<open>m\<close>
  allows. A networkx graph contains the end points of its edges (\<open>wf_graph\<close>); the data
  model asks for distances that are not negative (\<open>nonneg_distances\<close>).
\<close>

definition allowed_rel :: "graph \<Rightarrow> transport_mode \<Rightarrow> (node \<times> node) set" where
  "allowed_rel G m = {(u, v). \<exists>k data. (k, data) \<in> set (edges_between G u v) \<and> road_allowed m data}"

definition wf_graph :: "graph \<Rightarrow> bool" where
  "wf_graph G \<longleftrightarrow> (\<forall>(a, b, k, d) \<in> set (gedges G). a \<in> set (gnodes G) \<and> b \<in> set (gnodes G))"

definition nonneg_distances :: "graph \<Rightarrow> bool" where
  "nonneg_distances G \<longleftrightarrow> (\<forall>(a, b, k, d) \<in> set (gedges G). 0 \<le> distance_of d)"

lemma edges_between_mem:
  "(k, data) \<in> set (edges_between G u v) \<longleftrightarrow>
     ((u, v, k, data) \<in> set (gedges G) \<or> (v, u, k, data) \<in> set (gedges G))"
  by (auto simp: edges_between_def split: if_splits)

lemma edge_items_mem:
  assumes "(v, k, data) \<in> set (edge_items G u)"
  shows "(k, data) \<in> set (edges_between G u v)"
  using assms by (auto simp: edge_items_def adj_def)

lemma item_node:
  assumes "wf_graph G" and "(v, k, data) \<in> set (edge_items G u)"
  shows "v \<in> set (gnodes G)"
  using edge_items_mem [OF assms(2)] assms(1)
  by (auto simp: edges_between_mem wf_graph_def)

lemma item_weight:
  assumes "nonneg_distances G" and "u \<in> set (gnodes G)"
    and "(v, k, data) \<in> set (edge_items G u)"
  shows "get_edge_weight G td u v k tp etp (distance_of data) m = Inr PInf
       \<or> (\<exists>w. get_edge_weight G td u v k tp etp (distance_of data) m = Inr (Fin w)
               \<and> 0 \<le> w \<and> (u, v) \<in> allowed_rel G m)"
proof -
  have mem: "(k, data) \<in> set (edges_between G u v)" by (rule edge_items_mem [OF assms(3)])
  then have "k \<in> fst ` set (edges_between G u v)" by force
  then obtain data' where d': "map_of (edges_between G u v) k = Some data'"
    by (cases "map_of (edges_between G u v) k") (auto simp: map_of_eq_None_iff)
  then have mem': "(k, data') \<in> set (edges_between G u v)" by (rule map_of_SomeD)
  have look: "edge_lookup G u v k = Inr data'"
    using assms(2) d' by (simp add: edge_lookup_def)
  have dist: "0 \<le> distance_of data"
    using mem assms(1) by (auto simp: edges_between_mem nonneg_distances_def)
  show ?thesis
  proof (cases "road_allowed m data'")
    case False
    then show ?thesis using look by (simp add: get_edge_weight_def)
  next
    case True
    let ?speed = "effective_speed m (traffic_flow_of td tp etp u v (capacity_of data'))
                    (capacity_of data')"
    have "0 < ?speed" by (rule effective_speed_pos)
    then have "0 \<le> (distance_of data / 1000) / ?speed * 60" using dist by simp
    moreover have "(u, v) \<in> allowed_rel G m"
      using mem' True by (auto simp: allowed_rel_def)
    ultimately show ?thesis
      using look True by (simp add: get_edge_weight_def Let_def)
  qed
qed


text \<open>
  The invariant of the search loop: every heap entry is for a node of the graph that is
  reachable from the start over allowed edges, and is at least the recorded distance of its
  node; the heap has no duplicate entry; nothing was raised; every node with a predecessor
  is reachable. \<open>expanding\<close> is the invariant of the inner loops that relax the edges of
  the node \<open>u\<close> popped at distance \<open>du\<close>. \<open>settled\<close> are the nodes whose distance is at
  most every heap entry and that have no live heap entry: their number grows whenever a
  node is expanded, which bounds the number of rounds.
\<close>

definition search_inv :: "graph \<Rightarrow> transport_mode \<Rightarrow> node \<Rightarrow> search_state \<Rightarrow> bool" where
  "search_inv G m start s \<longleftrightarrow>
     (\<forall>(d, n) \<in> set (pq s). n \<in> set (gnodes G) \<and> (\<exists>x. distances s n = Fin x \<and> x \<le> d)
         \<and> (start, n) \<in> (allowed_rel G m)\<^sup>*)
   \<and> distinct (pq s)
   \<and> (\<forall>e. status s \<noteq> Raised e)
   \<and> (\<forall>n. previous s n \<noteq> None \<longrightarrow> (start, n) \<in> (allowed_rel G m)\<^sup>*)"

definition expanding ::
  "graph \<Rightarrow> transport_mode \<Rightarrow> node \<Rightarrow> node \<Rightarrow> real \<Rightarrow> search_state \<Rightarrow> bool" where
  "expanding G m start u du s \<longleftrightarrow>
     status s = Running \<and> distances s u = Fin du \<and> (\<forall>(d, n) \<in> set (pq s). du \<le> d)
   \<and> search_inv G m start s"

definition closed :: "graph \<Rightarrow> real \<Rightarrow> search_state \<Rightarrow> node set" where
  "closed G L s =
     {n \<in> set (gnodes G). \<exists>x. distances s n = Fin x \<and> x \<le> L \<and> (x, n) \<notin> set (pq s)}"

definition settled :: "graph \<Rightarrow> search_state \<Rightarrow> node set" where
  "settled G s =
     {n \<in> set (gnodes G). \<exists>x. distances s n = Fin x \<and> (\<forall>(d, n') \<in> set (pq s). x \<le> d)
        \<and> (x, n) \<notin> set (pq s)}"

lemma relax_edge_expanding:
  assumes wf: "wf_graph G" and nn: "nonneg_distances G"
    and u: "u \<in> set (gnodes G)" "(start, u) \<in> (allowed_rel G m)\<^sup>*"
    and item: "item \<in> set (edge_items G u)"
    and ex: "expanding G m start u du s"
  shows "expanding G m start u du (relax_edge G td tp etp m u s item)
       \<and> closed G du s \<subseteq> closed G du (relax_edge G td tp etp m u s item)"
proof -
  obtain v k data where it: "item = (v, k, data)" by (cases item)
  have vnode: "v \<in> set (gnodes G)" using item_node [OF wf] item it by blast
  have run: "status s = Running" and du: "distances s u = Fin du"
    and low: "\<forall>(d, n) \<in> set (pq s). du \<le> d" and inv: "search_inv G m start s"
    using ex by (auto simp: expanding_def)
  from item_weight [OF nn u(1), of v k data td tp etp m] item it
  consider "get_edge_weight G td u v k tp etp (distance_of data) m = Inr PInf"
    | w where "get_edge_weight G td u v k tp etp (distance_of data) m = Inr (Fin w)"
        "0 \<le> w" "(u, v) \<in> allowed_rel G m"
    by blast
  then show ?thesis
  proof cases
    case 1
    then have "relax_edge G td tp etp m u s item = s"
      using run it by (simp add: relax_edge_def Let_def)
    then show ?thesis using ex by simp
  next
    case 2
    show ?thesis
    proof (cases "xless (Fin (du + w)) (distances s v)")
      case False
      then have "relax_edge G td tp etp m u s item = s"
        using run it 2(1) du by (simp add: relax_edge_def Let_def)
      then show ?thesis using ex by simp
    next
      case True
      let ?s' = "s\<lparr>distances := (distances s)(v := Fin (du + w)),
                   previous := (previous s)(v := Some u),
                   edge_keys := (edge_keys s)(v := (edge_keys s v)(u \<mapsto> k)),
                   pq := heappush (pq s) (du + w, v)\<rparr>"
      have res: "relax_edge G td tp etp m u s item = ?s'"
        using run it 2(1) du True by (simp add: relax_edge_def Let_def)
      have vu: "v \<noteq> u" using True du 2(2) by auto
      have vreach: "(start, v) \<in> (allowed_rel G m)\<^sup>*"
        using u(2) 2(3) by (rule rtrancl_into_rtrancl)
      have better: "\<And>d. (d, v) \<in> set (pq s) \<Longrightarrow> du + w < d"
      proof -
        fix d assume "(d, v) \<in> set (pq s)"
        then obtain x where "distances s v = Fin x" "x \<le> d"
          using inv by (auto simp: search_inv_def)
        then show "du + w < d" using True by simp
      qed
      have fresh: "(du + w, v) \<notin> set (pq s)" using better by fastforce
      have inv': "search_inv G m start ?s'"
        unfolding search_inv_def
      proof (intro conjI)
        show "\<forall>(d, n)\<in>set (pq ?s'). n \<in> set (gnodes G)
             \<and> (\<exists>x. distances ?s' n = Fin x \<and> x \<le> d) \<and> (start, n) \<in> (allowed_rel G m)\<^sup>*"
          using inv vnode vreach better
          by (fastforce simp: search_inv_def heappush_def)
        show "distinct (pq ?s')" using inv fresh by (simp add: search_inv_def heappush_def)
        show "\<forall>e. status ?s' \<noteq> Raised e" using run by simp
        show "\<forall>n. previous ?s' n \<noteq> None \<longrightarrow> (start, n) \<in> (allowed_rel G m)\<^sup>*"
          using inv vreach by (simp add: search_inv_def)
      qed
      have ex': "expanding G m start u du ?s'"
        unfolding expanding_def using run du vu low 2(2) inv'
        by (auto simp: heappush_def)
      have cl: "closed G du s \<subseteq> closed G du ?s'"
      proof
        fix n assume n: "n \<in> closed G du s"
        then obtain x where x: "n \<in> set (gnodes G)" "distances s n = Fin x" "x \<le> du"
            "(x, n) \<notin> set (pq s)"
          by (auto simp: closed_def)
        have "n \<noteq> v" using True x(2,3) 2(2) by auto
        then show "n \<in> closed G du ?s'"
          using x by (auto simp: closed_def heappush_def)
      qed
      show ?thesis using res ex' cl by simp
    qed
  qed
qed

lemma expand_expanding:
  assumes wf: "wf_graph G" and nn: "nonneg_distances G"
    and u: "u \<in> set (gnodes G)" "(start, u) \<in> (allowed_rel G m)\<^sup>*"
    and items: "set items \<subseteq> set (edge_items G u)"
    and ex: "expanding G m start u du s"
  shows "expanding G m start u du (foldl (relax_edge G td tp etp m u) s items)
       \<and> closed G du s \<subseteq> closed G du (foldl (relax_edge G td tp etp m u) s items)"
  using items ex
proof (induction items arbitrary: s)
  case Nil
  then show ?case by simp
next
  case (Cons item items)
  have "item \<in> set (edge_items G u)" using Cons.prems(1) by simp
  from relax_edge_expanding [OF wf nn u this Cons.prems(2), of td tp etp]
  have step: "expanding G m start u du (relax_edge G td tp etp m u s item)"
    "closed G du s \<subseteq> closed G du (relax_edge G td tp etp m u s item)"
    by blast+
  have "set items \<subseteq> set (edge_items G u)" using Cons.prems(1) by simp
  from Cons.IH [OF this step(1)] step(2) show ?case by auto
qed


lemma heappop_min:
  assumes "h \<noteq> []" and "heappop h = ((d, u), rest)"
  shows "(d, u) \<in> set h" and "\<forall>(d', n') \<in> set h. d \<le> d'" and "rest = remove1 (d, u) h"
proof -
  have m: "Min (set h) = (d, u)" and r: "rest = remove1 (d, u) h"
    using assms(2) by (auto simp: heappop_def Let_def)
  show "(d, u) \<in> set h" using Min_in [of "set h"] assms(1) m by simp
  show "rest = remove1 (d, u) h" by (rule r)
  show "\<forall>(d', n') \<in> set h. d \<le> d'"
  proof (clarify)
    fix d' n' assume "(d', n') \<in> set h"
    then have "(d, u) \<le> (d', n')" using Min_le [of "set h" "(d', n')"] m by simp
    then show "d \<le> d'" by (auto simp: less_eq_prod_def)
  qed
qed

definition search_measure :: "graph \<Rightarrow> search_state \<Rightarrow> nat \<times> nat" where
  "search_measure G s = (card (set (gnodes G) - settled G s), length (pq s))"

lemma dijkstra_step_inv:
  assumes wf: "wf_graph G" and nn: "nonneg_distances G"
    and inv: "search_inv G m start s"
    and ne: "pq s \<noteq> []" and run: "status s = Running"
  shows "search_inv G m start (dijkstra_step G td end_node tp etp m s)
       \<and> (search_measure G (dijkstra_step G td end_node tp etp m s), search_measure G s)
            \<in> less_than <*lex*> less_than"
proof -
  obtain d u rest where pop: "heappop (pq s) = ((d, u), rest)"
    by (cases "heappop (pq s)") auto
  note hp = heappop_min [OF ne pop]
  let ?s1 = "s\<lparr>pq := rest\<rparr>"
  have dist: "distinct (pq s)" using inv by (simp add: search_inv_def)
  have set_rest: "set rest = set (pq s) - {(d, u)}" using hp(3) dist by simp
  have len_rest: "length rest < length (pq s)"
    using hp(1,3) ne by (simp add: length_remove1)
  have unode: "u \<in> set (gnodes G)" and ureach: "(start, u) \<in> (allowed_rel G m)\<^sup>*"
    using inv hp(1) by (auto simp: search_inv_def)
  obtain x where x: "distances s u = Fin x" "x \<le> d"
    using inv hp(1) by (auto simp: search_inv_def)
  have inv1: "search_inv G m start ?s1"
    using inv set_rest hp(3) by (auto simp: search_inv_def)
  have settled1: "settled G s \<subseteq> settled G ?s1"
    using set_rest by (auto simp: settled_def)
  have fin: "finite (set (gnodes G) - settled G s)" by simp
  have weak: "card (set (gnodes G) - settled G ?s1) \<le> card (set (gnodes G) - settled G s)"
    using settled1 by (intro card_mono) auto
  have meas1: "(search_measure G ?s1, search_measure G s) \<in> less_than <*lex*> less_than"
    using weak len_rest by (auto simp: search_measure_def)
  show ?thesis
  proof (cases "u = end_node")
    case True
    then have res: "dijkstra_step G td end_node tp etp m s = ?s1\<lparr>status := Broke\<rparr>"
      using pop by (simp add: dijkstra_step_def Let_def)
    have "search_inv G m start (?s1\<lparr>status := Broke\<rparr>)"
      using inv1 by (simp add: search_inv_def)
    moreover have "search_measure G (?s1\<lparr>status := Broke\<rparr>) = search_measure G ?s1"
      by (simp add: search_measure_def settled_def)
    ultimately show ?thesis using res meas1 by simp
  next
    case notend: False
    show ?thesis
    proof (cases "xless (distances s u) (Fin d)")
      case True
      then have res: "dijkstra_step G td end_node tp etp m s = ?s1"
        using pop notend by (simp add: dijkstra_step_def Let_def)
      show ?thesis using res inv1 meas1 by simp
    next
      case False
      then have xd: "x = d" using x by simp
      let ?s' = "foldl (relax_edge G td tp etp m u) ?s1 (edge_items G u)"
      have res: "dijkstra_step G td end_node tp etp m s = ?s'"
        using pop notend False unode by (simp add: dijkstra_step_def Let_def)
      have ex1: "expanding G m start u d ?s1"
        unfolding expanding_def using run x(1) xd hp(2) set_rest inv1 by auto
      from expand_expanding [OF wf nn unode ureach subset_refl ex1, of td tp etp]
      have ex': "expanding G m start u d ?s'" and cl: "closed G d ?s1 \<subseteq> closed G d ?s'"
        by blast+
      have a: "settled G s \<subseteq> closed G d ?s1"
        using hp(1) set_rest by (fastforce simp: settled_def closed_def)
      have b: "u \<in> closed G d ?s1"
        using unode x(1) xd set_rest by (auto simp: closed_def)
      have c: "closed G d ?s' \<subseteq> settled G ?s'"
        using ex' by (fastforce simp: closed_def settled_def expanding_def)
      have d: "u \<notin> settled G s"
        using hp(1) x(1) xd by (auto simp: settled_def)
      have "set (gnodes G) - settled G ?s' \<subset> set (gnodes G) - settled G s"
        using a b c cl d unode by blast
      then have "card (set (gnodes G) - settled G ?s') < card (set (gnodes G) - settled G s)"
        using fin by (rule psubset_card_mono [rotated])
      then have "(search_measure G ?s', search_measure G s) \<in> less_than <*lex*> less_than"
        by (simp add: search_measure_def)
      moreover have "search_inv G m start ?s'" using ex' by (simp add: expanding_def)
      ultimately show ?thesis using res by simp
    qed
  qed
qed


lemma dijkstra_loop_terminates:
  assumes wf: "wf_graph G" and nn: "nonneg_distances G"
    and init: "search_inv G m start s0"
  shows "\<exists>s. dijkstra_loop G td end_node tp etp m s0 = Some s
           \<and> search_inv G m start s \<and> \<not> (pq s \<noteq> [] \<and> status s = Running)"
proof -
  let ?b = "\<lambda>s. pq s \<noteq> [] \<and> status s = Running"
  let ?c = "dijkstra_step G td end_node tp etp m"
  have step: "\<And>s. search_inv G m start s \<Longrightarrow> ?b s \<Longrightarrow>
      search_inv G m start (?c s)
      \<and> (search_measure G (?c s), search_measure G s) \<in> less_than <*lex*> less_than"
    using dijkstra_step_inv [OF wf nn] by blast
  have "{(t, s). (search_inv G m start s \<and> ?b s) \<and> t = ?c s}
          \<subseteq> inv_image (less_than <*lex*> less_than) (search_measure G)"
    using step by (auto simp: inv_image_def)
  then have wfr: "wf {(t, s). (search_inv G m start s \<and> ?b s) \<and> t = ?c s}"
    by (rule wf_subset [rotated]) (intro wf_inv_image wf_lex_prod wf_less_than)
  have pres: "\<And>s. search_inv G m start s \<Longrightarrow> ?b s \<Longrightarrow> search_inv G m start (?c s)"
    using step by blast
  from wf_while_option_Some [of "search_inv G m start" ?b ?c, OF wfr pres init]
  obtain t where t: "while_option ?b ?c s0 = Some t" by blast
  have "search_inv G m start t" using while_option_rule [OF pres t init] .
  moreover have "\<not> ?b t" using while_option_stop [OF t] .
  ultimately show ?thesis using t unfolding dijkstra_loop_def by blast
qed

lemma dijkstra_init_inv:
  assumes "start \<in> set (gnodes G)"
  shows "search_inv G m start (dijkstra_init start)"
  using assms by (simp add: search_inv_def dijkstra_init_def)

text \<open>Example: a road between A and B, and a node C without any edge.\<close>

definition isolated_node_graph :: graph where
  "isolated_node_graph =
     \<lparr>gnodes = [''A'', ''B'', ''C''], gpos = Map.empty,
      gedges = [(''A'', ''B'', 0, road_edge 1000 1000 ''existing'')]\<rparr>"

definition no_traffic :: traffic where
  "no_traffic = Map.empty"

text \<open>
  Claim C4. On a graph with distances that are not negative, for a start and a destination
  that are nodes of the graph and differ, when the destination cannot be reached from the
  start over edges whose road type the mode allows, \<open>dijkstra_with_traffic\<close> terminates,
  raises nothing, and returns the empty path with total distance 0 and total time 0.
\<close>

theorem dijkstra_unreachable:
  assumes "wf_graph G" and "nonneg_distances G"
    and "start \<in> set (gnodes G)" and "end_node \<in> set (gnodes G)"
    and "end_node \<noteq> start"
    and "(start, end_node) \<notin> (allowed_rel G m)\<^sup>*"
  shows "\<exists>r. dijkstra_with_traffic G td start end_node tp etp m = Some (Inr r)
           \<and> path r = [] \<and> total_distance r = 0 \<and> total_travel_time r = Fin 0"
proof -
  from dijkstra_loop_terminates [OF assms(1,2) dijkstra_init_inv [OF assms(3)]]
  obtain s where s: "dijkstra_loop G td end_node tp etp m (dijkstra_init start) = Some s"
      "search_inv G m start s"
    by blast
  have noerr: "\<forall>e. status s \<noteq> Raised e" using s(2) by (simp add: search_inv_def)
  have "previous s end_node = None"
    using s(2) assms(6) by (auto simp: search_inv_def)
  then have "\<not> truthy (previous s end_node)" by (simp add: truthy_def)
  then show ?thesis
    using s(1) noerr assms(4,5)
    by (cases "status s") (simp_all add: dijkstra_with_traffic_def)
qed


theorem dijkstra_unreachable_witness:
  "\<exists>r. dijkstra_with_traffic isolated_node_graph no_traffic ''A'' ''C'' (Some ''morning'') None Car
          = Some (Inr r)
     \<and> path r = [] \<and> total_distance r = 0 \<and> total_travel_time r = Fin 0"
proof -
  have wf: "wf_graph isolated_node_graph"
    by (simp add: wf_graph_def isolated_node_graph_def)
  have nn: "nonneg_distances isolated_node_graph"
    by (simp add: nonneg_distances_def isolated_node_graph_def distance_of_def road_edge_def)
  have a: "''A'' \<in> set (gnodes isolated_node_graph)"
    and c: "''C'' \<in> set (gnodes isolated_node_graph)"
    by (simp_all add: isolated_node_graph_def)
  have ne: "''C'' \<noteq> ''A''" by simp
  have sub: "allowed_rel isolated_node_graph Car \<subseteq> {''A'', ''B''} \<times> {''A'', ''B''}"
    by (auto simp: allowed_rel_def edges_between_mem isolated_node_graph_def)
  have "y \<in> {''A'', ''B''}" if "(''A'', y) \<in> (allowed_rel isolated_node_graph Car)\<^sup>*" for y
    using that by (induction rule: rtrancl_induct) (use sub in auto)
  then have un: "(''A'', ''C'') \<notin> (allowed_rel isolated_node_graph Car)\<^sup>*"
    by fastforce
  show ?thesis
    using dijkstra_unreachable [OF wf nn a c ne un] .
qed


section \<open>The reported travel time\<close>

text \<open>Example: one road from A to B with capacity 1000 and a morning flow of 1500 from A to B.\<close>

definition one_road_graph :: graph where
  "one_road_graph = single_edge_graph ''A'' ''B'' (road_edge 1000 1000 ''existing'')"

definition morning_traffic :: traffic where
  "morning_traffic = [''morning'' \<mapsto> [(''A'', ''B'') \<mapsto> 1500]]"

text \<open>
  Claim C5 fails on this input. The search relaxes the edge with the weight from A to B,
  which is 0.75 minutes (flow 1500 over capacity 1000, factor 1.5). The reconstruction
  calls \<open>get_edge_weight\<close> with \<^verbatim>\<open>current\<close> and \<^verbatim>\<open>next_node\<close>, that is from B to A, where the
  table has no entry and the factor is 1: the reported total is 0.5 minutes, not the sum of
  the weights along the path from the start to the end.
\<close>

theorem reported_time_is_reverse_direction:
  "route_result (dijkstra_with_traffic one_road_graph morning_traffic ''A'' ''B''
       (Some ''morning'') None Car)
     = Some (Inr ([''A'', ''B''], 1000, Fin (1 / 2)))
   \<and> get_edge_weight one_road_graph morning_traffic ''A'' ''B'' 0 (Some ''morning'') None 1000 Car
     = Inr (Fin (3 / 4))
   \<and> get_edge_weight one_road_graph morning_traffic ''B'' ''A'' 0 (Some ''morning'') None 1000 Car
     = Inr (Fin (1 / 2))"
  by code_simp

section \<open>Modes and road types\<close>

lemma heappop_single: "heappop [x] = (x, [])"
  by (simp add: heappop_def)

lemma single_edge_items:
  "a \<noteq> b \<Longrightarrow> edge_items (single_edge_graph a b data) a = [(b, 0, data)]"
  by (simp add: edge_items_def adj_def neighbors_def single_edge_graph_def edges_between_def
      first_occurrences_def)

lemma single_edge_lookup_rev:
  "edge_lookup (single_edge_graph a b data) b a 0 = Inr data"
  by (simp add: edge_lookup_def single_edge_graph_def edges_between_def)

lemma single_edge_nodes: "gnodes (single_edge_graph a b data) = [a, b]"
  by (simp add: single_edge_graph_def)

text \<open>Over an edge that the mode allows, the search finds the path from \<open>a\<close> to \<open>b\<close>.\<close>

lemma single_edge_allowed:
  assumes "a \<noteq> b" and "a \<noteq> []" and "b \<noteq> []" and "road_allowed m data"
  shows "\<exists>r. dijkstra_with_traffic (single_edge_graph a b data) td a b tp etp m = Some (Inr r)
           \<and> path r = [a, b]"
proof -
  let ?G = "single_edge_graph a b data"
  obtain w where w: "get_edge_weight ?G td a b 0 tp etp (distance_of data) m = Inr (Fin w)"
    using assms(4) by (simp add: get_edge_weight_def single_edge_lookup Let_def)
  obtain w' where w': "get_edge_weight ?G td b a 0 tp etp (distance_of data) m = Inr (Fin w')"
    using assms(4) by (simp add: get_edge_weight_def single_edge_lookup_rev Let_def)
  let ?S = "\<lambda>h st. \<lparr>distances = (\<lambda>n. PInf)(a := Fin 0, b := Fin w),
      previous = (\<lambda>n. None)(b := Some a),
      edge_keys = (\<lambda>n. Map.empty)(b := [a \<mapsto> 0]),
      pq = h, status = st\<rparr>"
  have step1: "dijkstra_step ?G td b tp etp m (dijkstra_init a) = ?S [(w, b)] Running"
    using assms(1) w
    by (simp add: dijkstra_step_def dijkstra_init_def heappop_single single_edge_items
        relax_edge_def Let_def heappush_def single_edge_nodes)
  have step2: "dijkstra_step ?G td b tp etp m (?S [(w, b)] Running) = ?S [] Broke"
    by (simp add: dijkstra_step_def heappop_single)
  have loop: "dijkstra_loop ?G td b tp etp m (dijkstra_init a) = Some (?S [] Broke)"
    unfolding dijkstra_loop_def
    apply (subst while_option_unfold)
    apply (simp add: step1)
    apply (simp add: dijkstra_init_def)
    apply (subst while_option_unfold)
    apply (simp add: step2)
    apply (subst while_option_unfold)
    apply simp
    done
  have walk: "walk_loop ?G td tp etp m (?S [] Broke)
      \<lparr>rcurrent = Some b, rpath = [], rtime = Fin 0, rdistance = 0, rerror = None\<rparr>
    = Some \<lparr>rcurrent = None, rpath = [b, a], rtime = Fin w', rdistance = distance_of data,
            rerror = None\<rparr>"
    unfolding walk_loop_def
    apply (subst while_option_unfold)
    apply (simp add: truthy_def assms walk_step_def single_edge_nodes single_edge_lookup_rev
        w' Let_def)
    apply (subst while_option_unfold)
    apply (simp add: truthy_def assms walk_step_def single_edge_nodes single_edge_lookup_rev
        w' Let_def)
    apply (subst while_option_unfold)
    apply (simp add: truthy_def)
    done
  show ?thesis
    unfolding dijkstra_with_traffic_def loop
    using assms by (simp add: walk single_edge_nodes truthy_def)
qed

text \<open>Over an edge that the mode does not allow, the search ends with the empty path.\<close>

lemma single_edge_blocked:
  assumes "a \<noteq> b" and "\<not> road_allowed m data"
  shows "\<exists>r. dijkstra_with_traffic (single_edge_graph a b data) td a b tp etp m = Some (Inr r)
           \<and> path r = []"
proof -
  let ?G = "single_edge_graph a b data"
  have w: "get_edge_weight ?G td a b 0 tp etp (distance_of data) m = Inr PInf"
    using assms(2) by (simp add: get_edge_weight_def single_edge_lookup)
  have step1: "dijkstra_step ?G td b tp etp m (dijkstra_init a) = (dijkstra_init a)\<lparr>pq := []\<rparr>"
    using assms(1) w
    by (simp add: dijkstra_step_def dijkstra_init_def heappop_single single_edge_items
        relax_edge_def Let_def single_edge_nodes)
  have loop: "dijkstra_loop ?G td b tp etp m (dijkstra_init a)
                = Some ((dijkstra_init a)\<lparr>pq := []\<rparr>)"
    unfolding dijkstra_loop_def
    apply (subst while_option_unfold)
    apply (simp add: step1)
    apply (simp add: dijkstra_init_def)
    apply (subst while_option_unfold)
    apply simp
    done
  show ?thesis
    unfolding dijkstra_with_traffic_def loop
    using assms(1) by (simp add: dijkstra_init_def single_edge_nodes truthy_def)
qed

text \<open>Example: two nodes joined only by a bus edge.\<close>

definition bus_only_graph :: graph where
  "bus_only_graph = single_edge_graph ''A'' ''B'' (road_edge 1000 1000 ''bus'')"

text \<open>
  Claim C6 as stated fails: the table of \<open>get_edge_weight\<close> allows the road type
  \<^verbatim>\<open>bus\<close> for the mode \<^verbatim>\<open>car\<close>, so the car query over a bus edge returns the path from A to B.
\<close>

theorem car_query_crosses_bus_edge:
  "route_result (dijkstra_with_traffic bus_only_graph no_traffic ''A'' ''B''
       (Some ''morning'') None Car)
     = Some (Inr ([''A'', ''B''], 1000, Fin (1 / 2)))"
  by code_simp

text \<open>
  Claim C6, amended. In a graph of two distinct nodes joined only by an edge of road type
  \<^verbatim>\<open>bus\<close>, the bus query between them returns the path of the two nodes, and so does the
  car query; the emergency query and the metro query return the empty path.
\<close>

theorem bus_edge_by_mode:
  assumes "a \<noteq> b" and "a \<noteq> []" and "b \<noteq> []" and "road_type data = Some ''bus''"
  shows "(\<exists>r. dijkstra_with_traffic (single_edge_graph a b data) td a b tp etp Bus = Some (Inr r)
             \<and> path r = [a, b])
       \<and> (\<exists>r. dijkstra_with_traffic (single_edge_graph a b data) td a b tp etp Car = Some (Inr r)
             \<and> path r = [a, b])
       \<and> (\<exists>r. dijkstra_with_traffic (single_edge_graph a b data) td a b tp etp Emergency
               = Some (Inr r) \<and> path r = [])
       \<and> (\<exists>r. dijkstra_with_traffic (single_edge_graph a b data) td a b tp etp Metro
               = Some (Inr r) \<and> path r = [])"
proof -
  have bus: "road_allowed Bus data" and car: "road_allowed Car data"
    and emergency: "\<not> road_allowed Emergency data" and metro: "\<not> road_allowed Metro data"
    using assms(4) by (simp_all add: road_allowed_def allowed_road_types_def)
  show ?thesis
    using single_edge_allowed [OF assms(1,2,3) bus] single_edge_allowed [OF assms(1,2,3) car]
      single_edge_blocked [OF assms(1) emergency] single_edge_blocked [OF assms(1) metro]
    by blast
qed

theorem bus_edge_by_mode_witness:
  "(\<exists>r. dijkstra_with_traffic bus_only_graph no_traffic ''A'' ''B'' (Some ''morning'') None Bus
          = Some (Inr r) \<and> path r = [''A'', ''B''])
   \<and> (\<exists>r. dijkstra_with_traffic bus_only_graph no_traffic ''A'' ''B'' (Some ''morning'') None Car
          = Some (Inr r) \<and> path r = [''A'', ''B''])
   \<and> (\<exists>r. dijkstra_with_traffic bus_only_graph no_traffic ''A'' ''B'' (Some ''morning'') None
            Emergency = Some (Inr r) \<and> path r = [])
   \<and> (\<exists>r. dijkstra_with_traffic bus_only_graph no_traffic ''A'' ''B'' (Some ''morning'') None
            Metro = Some (Inr r) \<and> path r = [])"
proof -
  have ne: "''A'' \<noteq> ''B''" and a: "''A'' \<noteq> []" and b: "''B'' \<noteq> []" by simp_all
  have rt: "road_type (road_edge 1000 1000 ''bus'') = Some ''bus''" by (simp add: road_edge_def)
  show ?thesis
    unfolding bus_only_graph_def
    using bus_edge_by_mode [OF ne a b rt] .
qed


section \<open>Memoized path planning (\<^verbatim>\<open>memoized_path_planning\<close>)\<close>

text \<open>
  The keys of the memo dictionary. The function builds the tuple
  \<^verbatim>\<open>(start, end, time_period)\<close> in the variable \<^verbatim>\<open>key\<close>; the loops at lines 368 and 416
  assign edge keys to the same variable, so both kinds of value can reach line 440.
\<close>

datatype memo_key = QueryKey node node string | EdgeKey nat

type_synonym memo = "memo_key \<rightharpoonup> node list \<times> real"

record memo_search_state = search_state +
  key_var :: memo_key

text \<open>
  The weight computed in line at lines 377 to 392 and again at lines 420 to 433: the car
  speed of 120 km/h divided by the traffic factor of the ordered pair \<open>(u, v)\<close>.
\<close>

definition memo_edge_weight :: "traffic \<Rightarrow> string \<Rightarrow> node \<Rightarrow> node \<Rightarrow> edge_data \<Rightarrow> real" where
  "memo_edge_weight td time_period u v data =
     (let base_distance = distance_of data;
          cap = capacity_of data;
          traffic_flow = traffic_lookup td time_period u v cap;
          base_speed = 120;
          speed = base_speed / traffic_factor traffic_flow cap;
          distance_km = base_distance / 1000
      in (distance_km / speed) * 60)"

text \<open>\<^verbatim>\<open>data.get('road_type', 'existing')\<close> and the test at line 374.\<close>

definition car_road :: "edge_data \<Rightarrow> bool" where
  "car_road data =
     ((case road_type data of None \<Rightarrow> ''existing'' | Some r \<Rightarrow> r)
        \<in> set [''existing'', ''potential'', ''virtual_connection'', ''virtual_link''])"

text \<open>Lines 368 to 404, for one edge of \<open>current_node\<close>; the loop header assigns \<^verbatim>\<open>key\<close>.\<close>

definition memo_relax_edge ::
  "traffic \<Rightarrow> string \<Rightarrow> node \<Rightarrow> memo_search_state \<Rightarrow> node \<times> nat \<times> edge_data
     \<Rightarrow> memo_search_state" where
  "memo_relax_edge td time_period current_node s item =
     (case item of (neighbor, key, data) \<Rightarrow>
        if status s \<noteq> Running then s
        else
          let s0 = s\<lparr>key_var := EdgeKey key\<rparr>;
              base_distance = distance_of data
          in if \<not> car_road data then s0
             else
               let weight = memo_edge_weight td time_period current_node neighbor data
               in if base_distance > 50000 then s0
                  else
                    (case xadd (distances s0 current_node) (Fin weight) of
                       PInf \<Rightarrow> s0
                     | Fin new_distance \<Rightarrow>
                         if xless (Fin new_distance) (distances s0 neighbor)
                         then s0\<lparr>distances := (distances s0)(neighbor := Fin new_distance),
                                 previous := (previous s0)(neighbor := Some current_node),
                                 edge_keys := (edge_keys s0)
                                   (neighbor := (edge_keys s0 neighbor)(current_node \<mapsto> key)),
                                 pq := heappush (pq s0) (new_distance, neighbor)\<rparr>
                         else s0))"

definition memo_step ::
  "graph \<Rightarrow> traffic \<Rightarrow> node \<Rightarrow> string \<Rightarrow> memo_search_state \<Rightarrow> memo_search_state" where
  "memo_step G td end_node time_period s =
     (case heappop (pq s) of ((current_distance, current_node), rest) \<Rightarrow>
        let s1 = s\<lparr>pq := rest\<rparr>
        in if current_node = end_node then s1\<lparr>status := Broke\<rparr>
           else if xless (distances s1 current_node) (Fin current_distance) then s1
           else if current_node \<notin> set (gnodes G) then s1\<lparr>status := Raised KeyError\<rparr>
           else foldl (memo_relax_edge td time_period current_node) s1
                  (edge_items G current_node))"

definition memo_init :: "node \<Rightarrow> memo_key \<Rightarrow> memo_search_state" where
  "memo_init start key =
     \<lparr>distances = (\<lambda>n. PInf)(start := Fin 0),
      previous = (\<lambda>n. None),
      edge_keys = (\<lambda>n. Map.empty),
      pq = [(0, start)],
      status = Running,
      key_var = key\<rparr>"

definition memo_loop ::
  "graph \<Rightarrow> traffic \<Rightarrow> node \<Rightarrow> string \<Rightarrow> memo_search_state \<Rightarrow> memo_search_state option" where
  "memo_loop G td end_node time_period =
     while_option (\<lambda>s. pq s \<noteq> [] \<and> status s = Running) (memo_step G td end_node time_period)"

text \<open>The reconstruction loop, lines 412 to 436; line 416 assigns \<^verbatim>\<open>key\<close> again.\<close>

record memo_walk_state =
  mcurrent :: "node option"
  mpath :: "node list"
  mweight :: real
  mkey :: memo_key
  merror :: "py_error option"

definition memo_walk_step ::
  "graph \<Rightarrow> traffic \<Rightarrow> string \<Rightarrow> memo_search_state \<Rightarrow> memo_walk_state \<Rightarrow> memo_walk_state" where
  "memo_walk_step G td time_period s w =
     (case mcurrent w of
        None \<Rightarrow> w
      | Some current \<Rightarrow>
          if current \<notin> set (gnodes G) then w\<lparr>merror := Some KeyError\<rparr>
          else
            let w1 = w\<lparr>mpath := mpath w @ [current]\<rparr>;
                next_node = previous s current
            in if truthy next_node
               then (case next_node of
                       None \<Rightarrow> w1\<lparr>mcurrent := next_node\<rparr>
                     | Some nx \<Rightarrow>
                         (case edge_keys s current nx of
                            None \<Rightarrow> w1\<lparr>merror := Some KeyError\<rparr>
                          | Some key \<Rightarrow>
                              (case edge_lookup G current nx key of
                                 Inl e \<Rightarrow> w1\<lparr>mkey := EdgeKey key, merror := Some e\<rparr>
                               | Inr data \<Rightarrow>
                                   w1\<lparr>mkey := EdgeKey key,
                                      mweight := mweight w1
                                        + memo_edge_weight td time_period current nx data,
                                      mcurrent := next_node\<rparr>)))
               else w1\<lparr>mcurrent := next_node\<rparr>)"

definition memo_walk_loop ::
  "graph \<Rightarrow> traffic \<Rightarrow> string \<Rightarrow> memo_search_state \<Rightarrow> memo_walk_state
     \<Rightarrow> memo_walk_state option" where
  "memo_walk_loop G td time_period s =
     while_option (\<lambda>w. truthy (mcurrent w) \<and> merror w = None) (memo_walk_step G td time_period s)"

text \<open>
  \<^verbatim>\<open>memoized_path_planning\<close>: the path, its weight and the memo dictionary (the execution
  time is left out). The argument \<^verbatim>\<open>memo=None\<close> is \<open>None\<close>. As for
  \<open>dijkstra_with_traffic\<close>, the outer \<open>None\<close> stands for a loop that does not terminate.
\<close>

definition memoized_path_planning ::
  "graph \<Rightarrow> traffic \<Rightarrow> node \<Rightarrow> node \<Rightarrow> string \<Rightarrow> memo option
     \<Rightarrow> (py_error + node list \<times> real \<times> memo) option" where
  "memoized_path_planning G td start end_node time_period memo_arg =
     (let memo = (case memo_arg of None \<Rightarrow> Map.empty | Some mm \<Rightarrow> mm);
          key = QueryKey start end_node time_period
      in case memo key of
           Some (stored_path, stored_weight) \<Rightarrow> Some (Inr (stored_path, stored_weight, memo))
         | None \<Rightarrow>
             (case memo_loop G td end_node time_period (memo_init start key) of
                None \<Rightarrow> None
              | Some s \<Rightarrow>
                  (case status s of
                     Raised e \<Rightarrow> Some (Inl e)
                   | _ \<Rightarrow>
                       if end_node \<notin> set (gnodes G) then Some (Inl KeyError)
                       else if truthy (previous s end_node) \<or> end_node = start
                       then (case memo_walk_loop G td time_period s
                                    \<lparr>mcurrent = Some end_node, mpath = [], mweight = 0,
                                     mkey = key_var s, merror = None\<rparr> of
                               None \<Rightarrow> None
                             | Some w \<Rightarrow>
                                 (case merror w of
                                    Some e \<Rightarrow> Some (Inl e)
                                  | None \<Rightarrow>
                                      Some (Inr (rev (mpath w), mweight w,
                                                 memo(mkey w \<mapsto> (rev (mpath w), mweight w))))))
                       else Some (Inr ([], 0, memo(key_var s \<mapsto> ([], 0)))))))"

text \<open>The memo dictionary that a call returns (empty when the call does not return).\<close>

definition returned_memo :: "(py_error + node list \<times> real \<times> memo) option \<Rightarrow> memo" where
  "returned_memo x = (case x of Some (Inr (p, w, mm)) \<Rightarrow> mm | _ \<Rightarrow> Map.empty)"

definition returned_path ::
  "(py_error + node list \<times> real \<times> memo) option \<Rightarrow> (node list \<times> real) option" where
  "returned_path x = (case x of Some (Inr (p, w, mm)) \<Rightarrow> Some (p, w) | _ \<Rightarrow> None)"


text \<open>Example: the first call for the road from A to B.\<close>

definition first_query :: "(py_error + node list \<times> real \<times> memo) option" where
  "first_query = memoized_path_planning one_road_graph no_traffic ''A'' ''B'' ''morning'' None"

definition second_query :: "(py_error + node list \<times> real \<times> memo) option" where
  "second_query =
     memoized_path_planning one_road_graph no_traffic ''A'' ''B'' ''morning''
       (Some (returned_memo first_query))"

text \<open>
  Claim C1 fails on this input. The first call returns the path from A to B, but stores it
  under the key of the last edge visited, which is the integer 0, not under
  \<^verbatim>\<open>('A', 'B', 'morning')\<close>. The memo it returns has no entry for the query, so the second
  call with that memo does not find the key and searches the graph again; the query key is
  still missing afterwards.
\<close>

theorem memo_entry_under_edge_key:
  "returned_path first_query = Some ([''A'', ''B''], 1 / 2)
   \<and> returned_memo first_query (QueryKey ''A'' ''B'' ''morning'') = None
   \<and> returned_memo first_query (EdgeKey 0) = Some ([''A'', ''B''], 1 / 2)
   \<and> returned_path second_query = Some ([''A'', ''B''], 1 / 2)
   \<and> returned_memo second_query (QueryKey ''A'' ''B'' ''morning'') = None"
  unfolding first_query_def second_query_def by code_simp


section \<open>Graph construction (\<^verbatim>\<open>src/utils/graph_utils.py\<close>)\<close>

text \<open>
  The remaining input tables. A coordinate of a facility may be missing (\<^verbatim>\<open>pd.notnull\<close>);
  the stops of a route are the list obtained from the comma-separated column. The names of
  the nodes and the route identifiers are not read by the functions modelled here and are
  left out; the type of a facility is the column after \<^verbatim>\<open>str(...).strip()\<close>.
\<close>

record facility_row =
  fc_id :: string
  fc_type :: string
  fc_x :: "real option"
  fc_y :: "real option"

record potential_road_row =
  pr_from :: string
  pr_to :: string
  pr_distance_km :: real
  pr_capacity :: real
  pr_cost :: real

record bus_route_row =
  br_stops :: "string list"
  br_daily_passengers :: real

record metro_line_row =
  ml_stations :: "string list"
  ml_daily_passengers :: real

record city_data =
  neighborhoods :: "neighborhood_row list"
  facilities :: "facility_row list"
  existing_roads :: "existing_road_row list"
  bus_routes :: "bus_route_row list"
  metro_lines :: "metro_line_row list"
  potential_roads :: "potential_road_row list"
  traffic_data :: traffic

text \<open>
  \<^verbatim>\<open>G.add_node\<close> keeps an existing node and sets the attributes given; \<^verbatim>\<open>G.add_edge\<close> adds
  missing end points and takes as key the number of edges already between the two nodes
  (no edge is ever removed, so that number is a free key).
\<close>

definition add_node :: "graph \<Rightarrow> node \<Rightarrow> (real \<times> real) option \<Rightarrow> graph" where
  "add_node G n p =
     G\<lparr>gnodes := (if n \<in> set (gnodes G) then gnodes G else gnodes G @ [n]),
       gpos := (case p of None \<Rightarrow> gpos G | Some xy \<Rightarrow> (gpos G)(n \<mapsto> xy))\<rparr>"

definition add_edge :: "graph \<Rightarrow> node \<Rightarrow> node \<Rightarrow> edge_data \<Rightarrow> graph" where
  "add_edge G u v data =
     (let G1 = add_node (add_node G u None) v None;
          key = length (edges_between G u v)
      in G1\<lparr>gedges := gedges G1 @ [(u, v, key, data)]\<rparr>)"

text \<open>A warning printed by \<open>create_graph\<close>: the two identifiers and the distance in km.\<close>

type_synonym warning = "string \<times> string \<times> real"

definition add_neighborhood :: "graph \<Rightarrow> neighborhood_row \<Rightarrow> graph" where
  "add_neighborhood G row = add_node G (nb_id row) (Some (nb_x row, nb_y row))"

definition add_facility :: "graph \<Rightarrow> facility_row \<Rightarrow> graph" where
  "add_facility G row =
     (case (fc_x row, fc_y row) of
        (Some x, Some y) \<Rightarrow> add_node G (fc_id row) (Some (x, y))
      | _ \<Rightarrow> add_node G (fc_id row) None)"

text \<open>Lines 61 to 73.\<close>

definition add_existing_road ::
  "graph \<times> warning list \<Rightarrow> existing_road_row \<Rightarrow> graph \<times> warning list" where
  "add_existing_road st row =
     (case st of (G, warnings) \<Rightarrow>
        let distance_m = er_distance_km row * 1000
        in if distance_m > 100000
           then (G, warnings @ [(er_from row, er_to row, distance_m / 1000)])
           else (add_edge G (er_from row) (er_to row)
                   \<lparr>distance = Some distance_m,
                    capacity = Some (er_capacity row),
                    condition = Some (er_condition row),
                    road_type = Some ''existing'',
                    cost = Some 0\<rparr>, warnings))"

text \<open>
  Lines 91 to 101 and 132 to 142: the distance of a bus or metro edge is that of the first
  existing-road record between the two stops, in either direction, and otherwise the mean
  distance of the existing roads, or a fixed fallback when there are none.
\<close>

definition transit_distance :: "existing_road_row list \<Rightarrow> real \<Rightarrow> node \<Rightarrow> node \<Rightarrow> real" where
  "transit_distance rows fallback a b =
     (case find (\<lambda>r. (er_from r = a \<and> er_to r = b) \<or> (er_from r = b \<and> er_to r = a)) rows of
        Some r \<Rightarrow> er_distance_km r * 1000
      | None \<Rightarrow>
          if rows \<noteq> [] then (sum_list (map er_distance_km rows) / real (length rows)) * 1000
          else fallback)"

definition add_transit_edge ::
  "existing_road_row list \<Rightarrow> real \<Rightarrow> real \<Rightarrow> string \<Rightarrow> real \<Rightarrow> graph \<Rightarrow> node \<times> node \<Rightarrow> graph" where
  "add_transit_edge rows fallback cond rt daily_passengers G stops =
     (case stops of (from_stop, to_stop) \<Rightarrow>
        add_edge (add_node (add_node G from_stop None) to_stop None) from_stop to_stop
          \<lparr>distance = Some (transit_distance rows fallback from_stop to_stop),
           capacity = Some (daily_passengers / 24),
           condition = Some cond,
           road_type = Some rt,
           cost = Some 0\<rparr>)"

definition add_bus_route :: "existing_road_row list \<Rightarrow> graph \<Rightarrow> bus_route_row \<Rightarrow> graph" where
  "add_bus_route rows G route =
     foldl (add_transit_edge rows 1500 7 ''bus'' (br_daily_passengers route)) G
       (zip (br_stops route) (tl (br_stops route)))"

definition add_metro_line :: "existing_road_row list \<Rightarrow> graph \<Rightarrow> metro_line_row \<Rightarrow> graph" where
  "add_metro_line rows G line =
     foldl (add_transit_edge rows 2000 8 ''metro'' (ml_daily_passengers line)) G
       (zip (ml_stations line) (tl (ml_stations line)))"

text \<open>Lines 158 to 170.\<close>

definition add_potential_road ::
  "graph \<times> warning list \<Rightarrow> potential_road_row \<Rightarrow> graph \<times> warning list" where
  "add_potential_road st row =
     (case st of (G, warnings) \<Rightarrow>
        let distance_m = pr_distance_km row * 1000
        in if distance_m > 100000
           then (G, warnings @ [(pr_from row, pr_to row, distance_m / 1000)])
           else (add_edge G (pr_from row) (pr_to row)
                   \<lparr>distance = Some distance_m,
                    capacity = Some (pr_capacity row),
                    condition = Some 10,
                    road_type = Some ''potential'',
                    cost = Some (pr_cost row)\<rparr>, warnings))"

text \<open>\<^verbatim>\<open>distance_calc\<close>, lines 260 to 264.\<close>

definition distance_calc :: "real \<Rightarrow> real \<Rightarrow> real \<Rightarrow> real \<Rightarrow> real" where
  "distance_calc x1 y1 x2 y2 =
     (let lat_factor = 111000 * cos (30 * pi / 180);
          lon_factor = 111000;
          dx = (x2 - x1) * lon_factor;
          dy = (y2 - y1) * lat_factor
      in sqrt (dx\<^sup>2 + dy\<^sup>2))"

text \<open>
  A dictionary that is iterated in insertion order: assigning to an existing key replaces
  the value in place.
\<close>

fun dict_set :: "('k \<times> 'v) list \<Rightarrow> 'k \<Rightarrow> 'v \<Rightarrow> ('k \<times> 'v) list" where
  "dict_set [] k v = [(k, v)]"
| "dict_set ((k', v') # xs) k v = (if k' = k then (k, v) # xs else (k', v') # dict_set xs k v)"

text \<open>Lines 173 to 182.\<close>

definition all_coords_of :: "city_data \<Rightarrow> (node \<times> real \<times> real) list" where
  "all_coords_of data =
     foldl (\<lambda>coords row.
              case (fc_x row, fc_y row) of
                (Some x, Some y) \<Rightarrow> dict_set coords (fc_id row) (x, y)
              | _ \<Rightarrow> coords)
       (foldl (\<lambda>coords row. dict_set coords (nb_id row) (nb_x row, nb_y row)) []
          (neighborhoods data))
       (facilities data)"

text \<open>
  The search for the nearest node with coordinates, lines 191 to 198 and 219 to 228. The
  pair of \<^verbatim>\<open>min_dist\<close> and the nearest node is \<open>None\<close> while \<^verbatim>\<open>min_dist\<close> is infinite; the
  position found with the node is the value of \<^verbatim>\<open>all_coords[nearest]\<close>.
\<close>

definition nearest_scan ::
  "(real \<times> real \<Rightarrow> real) \<Rightarrow> node \<Rightarrow> (node \<times> real \<times> real) list
     \<Rightarrow> (real \<times> node \<times> real \<times> real) option" where
  "nearest_scan measure_to node coords =
     foldl (\<lambda>best item.
              case item of (other_node, pos) \<Rightarrow>
                if other_node \<noteq> node
                then (let d = measure_to pos
                      in case best of
                           None \<Rightarrow> Some (d, other_node, pos)
                         | Some (min_dist, nearest) \<Rightarrow>
                             if d < min_dist then Some (d, other_node, pos) else best)
                else best)
       None coords"

text \<open>
  \<^verbatim>\<open>nx.shortest_path\<close> followed by \<^verbatim>\<open>nx.path_weight\<close> is library code: it is the parameter
  \<open>sp\<close>, which gives the distance of a shortest path, or \<open>None\<close> when the library raises
  \<^verbatim>\<open>NetworkXNoPath\<close> or \<^verbatim>\<open>NodeNotFound\<close>.
\<close>

type_synonym shortest_path = "graph \<Rightarrow> node \<Rightarrow> node \<Rightarrow> real option"

text \<open>Lines 186 to 214, for one node.\<close>

definition fix_position ::
  "shortest_path \<Rightarrow> (node \<times> real \<times> real) list \<Rightarrow> (node \<rightharpoonup> real \<times> real) \<Rightarrow> graph \<Rightarrow> node
     \<Rightarrow> graph" where
  "fix_position sp coords positions G node =
     (if positions node \<noteq> None then G
      else
        (case map_of coords node of
           Some xy \<Rightarrow> G\<lparr>gpos := (gpos G)(node \<mapsto> xy)\<rparr>
         | None \<Rightarrow>
             (case nearest_scan (\<lambda>pos. distance_calc (fst pos) (snd pos) (fst pos) (snd pos))
                     node coords of
                None \<Rightarrow> G\<lparr>gpos := (gpos G)(node \<mapsto> (0, 0))\<rparr>
              | Some (min_dist, nearest, x, y) \<Rightarrow>
                  if nearest \<noteq> []
                  then
                    (let G1 = G\<lparr>gpos := (gpos G)(node \<mapsto> (x + 1 / 100, y + 1 / 100))\<rparr>;
                         calculated_distance =
                           (case sp G1 node nearest of Some d \<Rightarrow> d | None \<Rightarrow> 1000)
                     in add_edge G1 node nearest
                          \<lparr>distance = Some calculated_distance,
                           capacity = None,
                           condition = Some 10,
                           road_type = Some ''virtual_link'',
                           cost = Some 0\<rparr>)
                  else G\<lparr>gpos := (gpos G)(node \<mapsto> (0, 0))\<rparr>)))"

text \<open>\<^verbatim>\<open>nx.isolates\<close>: the nodes without any incident edge.\<close>

definition isolates :: "graph \<Rightarrow> node list" where
  "isolates G = filter (\<lambda>n. \<forall>(a, b, k, d) \<in> set (gedges G). a \<noteq> n \<and> b \<noteq> n) (gnodes G)"

text \<open>
  Lines 218 to 239, for one node; \<^verbatim>\<open>G.nodes[node]["pos"]\<close> raises \<^verbatim>\<open>KeyError\<close> for a node
  without position.
\<close>

definition connect_isolated ::
  "shortest_path \<Rightarrow> (node \<times> real \<times> real) list \<Rightarrow> py_error + graph \<Rightarrow> node
     \<Rightarrow> py_error + graph" where
  "connect_isolated sp coords acc node =
     (case acc of
        Inl e \<Rightarrow> Inl e
      | Inr G \<Rightarrow>
          (case gpos G node of
             None \<Rightarrow> Inl KeyError
           | Some (x1, y1) \<Rightarrow>
               (case nearest_scan (\<lambda>pos. distance_calc x1 y1 (fst pos) (snd pos)) node coords of
                  None \<Rightarrow> Inr G
                | Some (min_dist, nearest_node, pos) \<Rightarrow>
                    if nearest_node \<noteq> []
                    then
                      (let calculated_distance =
                             (case sp G node nearest_node of Some d \<Rightarrow> d | None \<Rightarrow> min_dist)
                       in Inr (add_edge G node nearest_node
                                 \<lparr>distance = Some calculated_distance,
                                  capacity = None,
                                  condition = Some 8,
                                  road_type = Some ''virtual_connection'',
                                  cost = Some 0\<rparr>))
                    else Inr G)))"

text \<open>
  \<open>create_graph\<close>: the graph, the bus stops, the metro stations and the traffic table, with
  the warnings printed on the way.
\<close>

record created =
  cg_graph :: graph
  cg_bus_stops :: "node set"
  cg_metro_stations :: "node set"
  cg_traffic :: traffic
  cg_warnings :: "warning list"

definition stops_of :: "string list list \<Rightarrow> node set" where
  "stops_of routes =
     (\<Union>stops \<in> set routes. fst ` set (zip stops (tl stops)) \<union> snd ` set (zip stops (tl stops)))"

text \<open>Lines 31 to 170: the nodes and the edges read from the tables.\<close>

definition read_tables :: "city_data \<Rightarrow> graph \<times> warning list" where
  "read_tables data =
     (let G0 = \<lparr>gnodes = [], gpos = Map.empty, gedges = []\<rparr>;
          G1 = foldl add_neighborhood G0 (neighborhoods data);
          G2 = foldl add_facility G1 (facilities data);
          (G3, warnings3) = foldl add_existing_road (G2, []) (existing_roads data);
          G4 = foldl (add_bus_route (existing_roads data)) G3 (bus_routes data);
          G5 = foldl (add_metro_line (existing_roads data)) G4 (metro_lines data)
      in foldl add_potential_road (G5, warnings3) (potential_roads data))"

definition create_graph :: "shortest_path \<Rightarrow> city_data \<Rightarrow> py_error + created" where
  "create_graph sp data =
     (case read_tables data of (G6, warnings6) \<Rightarrow>
        let coords = all_coords_of data;
            G7 = foldl (fix_position sp coords (gpos G6)) G6 (gnodes G6)
        in case foldl (connect_isolated sp coords) (Inr G7) (isolates G7) of
             Inl e \<Rightarrow> Inl e
           | Inr G8 \<Rightarrow>
               Inr \<lparr>cg_graph = G8,
                    cg_bus_stops = stops_of (map br_stops (bus_routes data)),
                    cg_metro_stations = stops_of (map ml_stations (metro_lines data)),
                    cg_traffic = traffic_data data,
                    cg_warnings = warnings6\<rparr>)"

text \<open>The edges of one road type, as end points and distance, in insertion order.\<close>

definition typed_edges :: "string \<Rightarrow> graph \<Rightarrow> (node \<times> node \<times> real option) list" where
  "typed_edges rt G =
     map (\<lambda>(a, b, k, d). (a, b, distance d))
       (filter (\<lambda>(a, b, k, d). road_type d = Some rt) (gedges G))"



section \<open>Edge distances after construction\<close>


lemma typed_edges_add_node [simp]: "typed_edges rt (add_node G n p) = typed_edges rt G"
  by (simp add: typed_edges_def add_node_def)

lemma typed_edges_gpos [simp]: "typed_edges rt (G\<lparr>gpos := x\<rparr>) = typed_edges rt G"
  by (simp add: typed_edges_def)

lemma typed_edges_add_edge:
  "typed_edges rt (add_edge G u v d)
     = typed_edges rt G @ (if road_type d = Some rt then [(u, v, distance d)] else [])"
  by (simp add: typed_edges_def add_edge_def add_node_def Let_def)

lemma foldl_typed_edges_same:
  assumes "\<And>G x. typed_edges rt (f G x) = typed_edges rt G"
  shows "typed_edges rt (foldl f G xs) = typed_edges rt G"
  by (induction xs arbitrary: G) (simp_all add: assms)

text \<open>The test of lines 65 and 162 on a distance given in km.\<close>

definition road_ok :: "real \<Rightarrow> bool" where
  "road_ok km \<longleftrightarrow> \<not> km * 1000 > 100000"

lemma existing_stage:
  "foldl add_existing_road (G, w) rows = (G', w') \<Longrightarrow>
     typed_edges ''existing'' G'
       = typed_edges ''existing'' G
         @ map (\<lambda>r. (er_from r, er_to r, Some (er_distance_km r * 1000)))
             (filter (\<lambda>r. road_ok (er_distance_km r)) rows)
   \<and> typed_edges ''potential'' G' = typed_edges ''potential'' G
   \<and> w' = w @ map (\<lambda>r. (er_from r, er_to r, er_distance_km r * 1000 / 1000))
               (filter (\<lambda>r. \<not> road_ok (er_distance_km r)) rows)"
proof (induction rows arbitrary: G w)
  case Nil
  then show ?case by simp
next
  case (Cons r rows)
  obtain G1 w1 where st: "add_existing_road (G, w) r = (G1, w1)"
    by (cases "add_existing_road (G, w) r")
  have step: "typed_edges ''existing'' G1
        = typed_edges ''existing'' G
          @ (if road_ok (er_distance_km r)
             then [(er_from r, er_to r, Some (er_distance_km r * 1000))] else [])"
    "typed_edges ''potential'' G1 = typed_edges ''potential'' G"
    "w1 = w @ (if road_ok (er_distance_km r) then []
               else [(er_from r, er_to r, er_distance_km r * 1000 / 1000)])"
    using st
    by (auto simp: add_existing_road_def road_ok_def Let_def typed_edges_add_edge
        split: if_splits)
  have "foldl add_existing_road (G1, w1) rows = (G', w')"
    using Cons.prems st by simp
  from Cons.IH [OF this] step show ?case by simp
qed

lemma potential_stage:
  "foldl add_potential_road (G, w) rows = (G', w') \<Longrightarrow>
     typed_edges ''potential'' G'
       = typed_edges ''potential'' G
         @ map (\<lambda>r. (pr_from r, pr_to r, Some (pr_distance_km r * 1000)))
             (filter (\<lambda>r. road_ok (pr_distance_km r)) rows)
   \<and> typed_edges ''existing'' G' = typed_edges ''existing'' G
   \<and> w' = w @ map (\<lambda>r. (pr_from r, pr_to r, pr_distance_km r * 1000 / 1000))
               (filter (\<lambda>r. \<not> road_ok (pr_distance_km r)) rows)"
proof (induction rows arbitrary: G w)
  case Nil
  then show ?case by simp
next
  case (Cons r rows)
  obtain G1 w1 where st: "add_potential_road (G, w) r = (G1, w1)"
    by (cases "add_potential_road (G, w) r")
  have step: "typed_edges ''potential'' G1
        = typed_edges ''potential'' G
          @ (if road_ok (pr_distance_km r)
             then [(pr_from r, pr_to r, Some (pr_distance_km r * 1000))] else [])"
    "typed_edges ''existing'' G1 = typed_edges ''existing'' G"
    "w1 = w @ (if road_ok (pr_distance_km r) then []
               else [(pr_from r, pr_to r, pr_distance_km r * 1000 / 1000)])"
    using st
    by (auto simp: add_potential_road_def road_ok_def Let_def typed_edges_add_edge
        split: if_splits)
  have "foldl add_potential_road (G1, w1) rows = (G', w')"
    using Cons.prems st by simp
  from Cons.IH [OF this] step show ?case by simp
qed

lemma transit_edge_typed:
  assumes "rt' \<noteq> rt"
  shows "typed_edges rt (add_transit_edge rows fb cond rt' p G stops) = typed_edges rt G"
  using assms by (cases stops) (simp add: add_transit_edge_def typed_edges_add_edge)

lemma bus_route_typed:
  assumes "rt \<noteq> ''bus''"
  shows "typed_edges rt (add_bus_route rows G route) = typed_edges rt G"
  unfolding add_bus_route_def
  by (rule foldl_typed_edges_same) (use assms in \<open>simp add: transit_edge_typed\<close>)

lemma metro_line_typed:
  assumes "rt \<noteq> ''metro''"
  shows "typed_edges rt (add_metro_line rows G line) = typed_edges rt G"
  unfolding add_metro_line_def
  by (rule foldl_typed_edges_same) (use assms in \<open>simp add: transit_edge_typed\<close>)

lemma fix_position_typed:
  assumes "rt \<noteq> ''virtual_link''"
  shows "typed_edges rt (fix_position sp coords positions G node) = typed_edges rt G"
  using assms
  by (auto simp: fix_position_def typed_edges_add_edge Let_def split: option.splits prod.splits)

lemma connect_isolated_typed:
  assumes "rt \<noteq> ''virtual_connection''"
    and "foldl (connect_isolated sp coords) (Inr G) nodes = Inr G'"
  shows "typed_edges rt G' = typed_edges rt G"
  using assms(2)
proof (induction nodes arbitrary: G)
  case Nil
  then show ?case by simp
next
  case (Cons n nodes)
  have err: "foldl (connect_isolated sp coords) (Inl e) xs = Inl e" for e xs
    by (induction xs) (simp_all add: connect_isolated_def)
  show ?case
  proof (cases "connect_isolated sp coords (Inr G) n")
    case (Inl e)
    then show ?thesis using Cons.prems err by simp
  next
    case (Inr G1)
    then have "typed_edges rt G1 = typed_edges rt G"
      using assms(1)
      by (auto simp: connect_isolated_def typed_edges_add_edge Let_def
          split: option.splits prod.splits if_splits)
    then show ?thesis using Cons.IH [of G1] Cons.prems Inr by simp
  qed
qed


lemma typed_edges_distance:
  assumes "(a, b, k, d) \<in> set (gedges G)" and "road_type d = Some rt"
  shows "(a, b, distance d) \<in> set (typed_edges rt G)"
  using assms by (force simp: typed_edges_def)

text \<open>
  Example: four neighbourhoods; a road of 0 km between A and B, a road of 150 km between
  C and D, and a bus route from C to D. Every node has a position and an edge, so the
  shortest-path function of the library is never called.
\<close>

definition sample_city :: city_data where
  "sample_city =
     \<lparr>neighborhoods =
        [\<lparr>nb_id = ''A'', nb_population = 1000, nb_x = 0, nb_y = 0\<rparr>,
         \<lparr>nb_id = ''B'', nb_population = 1000, nb_x = 1, nb_y = 0\<rparr>,
         \<lparr>nb_id = ''C'', nb_population = 1000, nb_x = 0, nb_y = 1\<rparr>,
         \<lparr>nb_id = ''D'', nb_population = 1000, nb_x = 1, nb_y = 1\<rparr>],
      facilities = [],
      existing_roads =
        [\<lparr>er_from = ''A'', er_to = ''B'', er_distance_km = 0, er_capacity = 1000,
          er_condition = 5\<rparr>,
         \<lparr>er_from = ''C'', er_to = ''D'', er_distance_km = 150, er_capacity = 1000,
          er_condition = 5\<rparr>],
      bus_routes = [\<lparr>br_stops = [''C'', ''D''], br_daily_passengers = 2400\<rparr>],
      metro_lines = [],
      potential_roads = [],
      traffic_data = Map.empty\<rparr>"

definition no_shortest_path :: shortest_path where
  "no_shortest_path G u v = None"

definition edge_summary ::
  "py_error + created \<Rightarrow> py_error + (node \<times> node \<times> string option \<times> real option) list" where
  "edge_summary x =
     map_sum id (\<lambda>res. map (\<lambda>(a, b, k, d). (a, b, road_type d, distance d)) (gedges (cg_graph res)))
       x"

definition warnings_of :: "py_error + created \<Rightarrow> warning list" where
  "warnings_of x = (case x of Inl e \<Rightarrow> [] | Inr res \<Rightarrow> cg_warnings res)"

lemma sample_tables:
  "read_tables sample_city =
     (\<lparr>gnodes = [''A'', ''B'', ''C'', ''D''],
       gpos = [''A'' \<mapsto> (0, 0), ''B'' \<mapsto> (1, 0), ''C'' \<mapsto> (0, 1), ''D'' \<mapsto> (1, 1)],
       gedges =
         [(''A'', ''B'', 0, \<lparr>distance = Some 0, capacity = Some 1000, condition = Some 5,
                              road_type = Some ''existing'', cost = Some 0\<rparr>),
          (''C'', ''D'', 0, \<lparr>distance = Some 150000, capacity = Some 100, condition = Some 7,
                              road_type = Some ''bus'', cost = Some 0\<rparr>)]\<rparr>,
      [(''C'', ''D'', 150)])"
  by (simp add: read_tables_def sample_city_def Let_def add_neighborhood_def add_node_def
      add_existing_road_def add_edge_def edges_between_def add_bus_route_def
      add_transit_edge_def transit_distance_def add_metro_line_def)

lemma sample_created:
  "create_graph no_shortest_path sample_city =
     Inr \<lparr>cg_graph = fst (read_tables sample_city),
          cg_bus_stops = stops_of (map br_stops (bus_routes sample_city)),
          cg_metro_stations = stops_of (map ml_stations (metro_lines sample_city)),
          cg_traffic = traffic_data sample_city,
          cg_warnings = [(''C'', ''D'', 150)]\<rparr>"
  unfolding create_graph_def sample_tables
  by (simp add: Let_def fix_position_def isolates_def)

text \<open>
  Claim C7 as stated fails: the graph built from \<open>sample_city\<close> has an edge of distance 0
  (no test rejects a distance that is not positive) and a bus edge of 150,000 metres (the
  distance of a bus edge is copied from the existing-road table, also from a record that
  was rejected, and is not tested).
\<close>

theorem create_graph_keeps_zero_and_long_edges:
  "edge_summary (create_graph no_shortest_path sample_city)
     = Inr [(''A'', ''B'', Some ''existing'', Some 0), (''C'', ''D'', Some ''bus'', Some 150000)]
   \<and> warnings_of (create_graph no_shortest_path sample_city) = [(''C'', ''D'', 150)]"
  unfolding sample_created
  by (simp add: edge_summary_def warnings_of_def sample_tables)

text \<open>
  Claim C7, amended. After \<open>create_graph\<close> completes, every edge of road type
  \<^verbatim>\<open>existing\<close> or \<^verbatim>\<open>potential\<close> has a distance of at most 100,000 metres: the edges of these
  two types are exactly the records of at most 100 km, in order, and each record of more
  than 100 km produces a warning and no edge.
\<close>

theorem create_graph_road_edges:
  assumes "create_graph sp data = Inr res"
  shows "typed_edges ''existing'' (cg_graph res)
           = map (\<lambda>r. (er_from r, er_to r, Some (er_distance_km r * 1000)))
               (filter (\<lambda>r. road_ok (er_distance_km r)) (existing_roads data))
       \<and> typed_edges ''potential'' (cg_graph res)
           = map (\<lambda>r. (pr_from r, pr_to r, Some (pr_distance_km r * 1000)))
               (filter (\<lambda>r. road_ok (pr_distance_km r)) (potential_roads data))
       \<and> cg_warnings res
           = map (\<lambda>r. (er_from r, er_to r, er_distance_km r * 1000 / 1000))
               (filter (\<lambda>r. \<not> road_ok (er_distance_km r)) (existing_roads data))
             @ map (\<lambda>r. (pr_from r, pr_to r, pr_distance_km r * 1000 / 1000))
                 (filter (\<lambda>r. \<not> road_ok (pr_distance_km r)) (potential_roads data))
       \<and> (\<forall>(a, b, k, d) \<in> set (gedges (cg_graph res)).
             road_type d = Some ''existing'' \<or> road_type d = Some ''potential''
             \<longrightarrow> (\<exists>x. distance d = Some x \<and> x \<le> 100000))"
proof -
  define G2 where "G2 = foldl add_facility
      (foldl add_neighborhood \<lparr>gnodes = [], gpos = Map.empty, gedges = []\<rparr> (neighborhoods data))
      (facilities data)"
  obtain G3 w3 where s3: "foldl add_existing_road (G2, []) (existing_roads data) = (G3, w3)"
    by (cases "foldl add_existing_road (G2, []) (existing_roads data)")
  define G5 where "G5 = foldl (add_metro_line (existing_roads data))
      (foldl (add_bus_route (existing_roads data)) G3 (bus_routes data)) (metro_lines data)"
  obtain G6 w6 where s6: "foldl add_potential_road (G5, w3) (potential_roads data) = (G6, w6)"
    by (cases "foldl add_potential_road (G5, w3) (potential_roads data)")
  define G7 where "G7 = foldl (fix_position sp (all_coords_of data) (gpos G6)) G6 (gnodes G6)"
  have rt: "read_tables data = (G6, w6)"
    unfolding read_tables_def Let_def G2_def [symmetric] s3 prod.case G5_def [symmetric] s6 ..
  from assms obtain G8 where
    s8: "foldl (connect_isolated sp (all_coords_of data)) (Inr G7) (isolates G7) = Inr G8"
    and res: "cg_graph res = G8" "cg_warnings res = w6"
    unfolding create_graph_def rt prod.case Let_def G7_def [symmetric]
    by (auto split: sum.splits)
  have e2: "typed_edges rt G2 = []" for rt
  proof -
    have "typed_edges rt G2 = typed_edges rt
        (foldl add_neighborhood \<lparr>gnodes = [], gpos = Map.empty, gedges = []\<rparr> (neighborhoods data))"
      unfolding G2_def
      by (rule foldl_typed_edges_same) (simp add: add_facility_def split: option.splits)
    also have "\<dots> = typed_edges rt \<lparr>gnodes = [], gpos = Map.empty, gedges = []\<rparr>"
      by (rule foldl_typed_edges_same) (simp add: add_neighborhood_def)
    finally show ?thesis by (simp add: typed_edges_def)
  qed
  note st3 = existing_stage [OF s3]
  have e5: "typed_edges rt G5 = typed_edges rt G3" if "rt \<noteq> ''bus''" "rt \<noteq> ''metro''" for rt
  proof -
    have "typed_edges rt G5
        = typed_edges rt (foldl (add_bus_route (existing_roads data)) G3 (bus_routes data))"
      unfolding G5_def by (rule foldl_typed_edges_same) (rule metro_line_typed [OF that(2)])
    also have "\<dots> = typed_edges rt G3"
      by (rule foldl_typed_edges_same) (rule bus_route_typed [OF that(1)])
    finally show ?thesis .
  qed
  note st6 = potential_stage [OF s6]
  have e7: "typed_edges rt G7 = typed_edges rt G6" if "rt \<noteq> ''virtual_link''" for rt
    unfolding G7_def by (rule foldl_typed_edges_same) (rule fix_position_typed [OF that])
  have e8: "typed_edges rt G8 = typed_edges rt G7" if "rt \<noteq> ''virtual_connection''" for rt
    by (rule connect_isolated_typed [OF that s8])
  have ex: "typed_edges ''existing'' (cg_graph res)
           = map (\<lambda>r. (er_from r, er_to r, Some (er_distance_km r * 1000)))
               (filter (\<lambda>r. road_ok (er_distance_km r)) (existing_roads data))"
    using res(1) e8 [of "''existing''"] e7 [of "''existing''"] st6 e5 [of "''existing''"] st3
      e2 [of "''existing''"]
    by simp
  have po: "typed_edges ''potential'' (cg_graph res)
           = map (\<lambda>r. (pr_from r, pr_to r, Some (pr_distance_km r * 1000)))
               (filter (\<lambda>r. road_ok (pr_distance_km r)) (potential_roads data))"
    using res(1) e8 [of "''potential''"] e7 [of "''potential''"] st6 e5 [of "''potential''"] st3
      e2 [of "''potential''"]
    by simp
  have wa: "cg_warnings res
           = map (\<lambda>r. (er_from r, er_to r, er_distance_km r * 1000 / 1000))
               (filter (\<lambda>r. \<not> road_ok (er_distance_km r)) (existing_roads data))
             @ map (\<lambda>r. (pr_from r, pr_to r, pr_distance_km r * 1000 / 1000))
                 (filter (\<lambda>r. \<not> road_ok (pr_distance_km r)) (potential_roads data))"
    using res(2) st6 st3 by simp
  have cap: "\<forall>(a, b, k, d) \<in> set (gedges (cg_graph res)).
             road_type d = Some ''existing'' \<or> road_type d = Some ''potential''
             \<longrightarrow> (\<exists>x. distance d = Some x \<and> x \<le> 100000)"
  proof (clarify)
    fix a b k d
    assume mem: "(a, b, k, d) \<in> set (gedges (cg_graph res))"
      and rt: "road_type d = Some ''existing'' \<or> road_type d = Some ''potential''"
    from rt show "\<exists>x. distance d = Some x \<and> x \<le> 100000"
    proof
      assume "road_type d = Some ''existing''"
      from typed_edges_distance [OF mem this] show ?thesis
        unfolding ex by (auto simp: road_ok_def)
    next
      assume "road_type d = Some ''potential''"
      from typed_edges_distance [OF mem this] show ?thesis
        unfolding po by (auto simp: road_ok_def)
    qed
  qed
  show ?thesis using ex po wa cap by blast
qed


theorem create_graph_road_edges_witness:
  "\<exists>res. create_graph no_shortest_path sample_city = Inr res
     \<and> typed_edges ''existing'' (cg_graph res) = [(''A'', ''B'', Some 0)]
     \<and> typed_edges ''potential'' (cg_graph res) = []
     \<and> cg_warnings res = [(''C'', ''D'', 150)]"
proof -
  show ?thesis
    using create_graph_road_edges [OF sample_created] sample_created
    by (simp add: sample_city_def road_ok_def)
qed

section \<open>Spanning trees (\<^verbatim>\<open>algorithms/mst/modified_mst.py\<close>)\<close>

text \<open>
  The union-find functions \<^verbatim>\<open>find\<close> and \<^verbatim>\<open>union\<close> of \<open>population_weighted_mst\<close>, on the
  dictionaries \<^verbatim>\<open>parent\<close> and \<^verbatim>\<open>rank\<close> (total functions here: both have the nodes of the
  graph as keys and are read at nodes only). \<^verbatim>\<open>find\<close> is recursive and compresses the path
  on the way back; its result is \<open>None\<close> when the recursion does not end.
\<close>

partial_function (option) uf_find ::
  "(node \<Rightarrow> node) \<Rightarrow> node \<Rightarrow> ((node \<Rightarrow> node) \<times> node) option" where
  "uf_find parent n =
     (if parent n \<noteq> n
      then Option.bind (uf_find parent (parent n))
             (\<lambda>(parent', root). Some (parent'(n := root), root))
      else Some (parent, n))"

definition uf_union ::
  "(node \<Rightarrow> node) \<times> (node \<Rightarrow> nat) \<Rightarrow> node \<Rightarrow> node
     \<Rightarrow> ((node \<Rightarrow> node) \<times> (node \<Rightarrow> nat)) option" where
  "uf_union st node1 node2 =
     (case st of (parent, rnk) \<Rightarrow>
        case uf_find parent node1 of
          None \<Rightarrow> None
        | Some (parent1, root1) \<Rightarrow>
            (case uf_find parent1 node2 of
               None \<Rightarrow> None
             | Some (parent2, root2) \<Rightarrow>
                 if root1 \<noteq> root2
                 then (if rnk root1 < rnk root2 then Some (parent2(root1 := root2), rnk)
                       else if rnk root1 > rnk root2 then Some (parent2(root2 := root1), rnk)
                       else Some (parent2(root2 := root1), rnk(root1 := rnk root1 + 1)))
                 else Some (parent2, rnk)))"

text \<open>A loop whose body may fail to return.\<close>

fun fold_option :: "('s \<Rightarrow> 'a \<Rightarrow> 's option) \<Rightarrow> 's \<Rightarrow> 'a list \<Rightarrow> 's option" where
  "fold_option f s [] = Some s"
| "fold_option f s (x # xs) = (case f s x of None \<Rightarrow> None | Some s' \<Rightarrow> fold_option f s' xs)"

text \<open>
  \<^verbatim>\<open>G.edges(keys=True, data=True)\<close> of a multigraph: for each node in order, the edges to
  the neighbours that were not visited as a node before.
\<close>

definition edges_view :: "graph \<Rightarrow> (node \<times> node \<times> nat \<times> edge_data) list" where
  "edges_view G =
     concat (map (\<lambda>i. let n = gnodes G ! i;
                          seen = set (take i (gnodes G))
                      in concat (map (\<lambda>(nbr, es).
                                        if nbr \<in> seen then []
                                        else map (\<lambda>(k, d). (n, nbr, k, d)) es)
                                   (adj G n)))
               [0 ..< length (gnodes G)])"

text \<open>The test \<^verbatim>\<open>keyword in facility_type\<close> on strings.\<close>

fun contains :: "string \<Rightarrow> string \<Rightarrow> bool" where
  "contains [] needle = (needle = [])"
| "contains (c # cs) needle = (take (length needle) (c # cs) = needle \<or> contains cs needle)"

text \<open>Lines 55 to 62.\<close>

definition critical_facilities_of :: "facility_row list \<Rightarrow> node list" where
  "critical_facilities_of fcs =
     map fc_id
       (filter (\<lambda>row. \<exists>keyword \<in> set [''hospital'', ''medical'', ''government'', ''airport'',
                                          ''police'', ''fire''].
                         contains (lower (fc_type row)) keyword) fcs)"

text \<open>Lines 76 to 98.\<close>

definition modified_weight_of ::
  "real \<Rightarrow> real \<Rightarrow> (string \<rightharpoonup> real) \<Rightarrow> node list \<Rightarrow> node \<Rightarrow> node \<Rightarrow> real \<Rightarrow> real" where
  "modified_weight_of alpha beta pop critical u v dst =
     (let u_pop = get_population pop u;
          v_pop = get_population pop v;
          total_pop = u_pop + v_pop;
          pop_factor = (if total_pop > 0 then 1 - min 1 (total_pop / 1000000) else 1);
          facility_factor = (if u \<in> set critical \<or> v \<in> set critical then 1 / 2 else 1)
      in dst * (alpha * pop_factor + beta * facility_factor))"

text \<open>
  An entry of the list \<^verbatim>\<open>edges\<close>: the end points, the distance, the modified weight and
  the original attributes. Lines 66 to 108 build the list and sort it (the sort is stable).
\<close>

type_synonym weighted_edge = "node \<times> node \<times> real \<times> real \<times> edge_data"

definition weighted_edges ::
  "real \<Rightarrow> real \<Rightarrow> (string \<rightharpoonup> real) \<Rightarrow> node list \<Rightarrow> graph \<Rightarrow> weighted_edge list" where
  "weighted_edges alpha beta pop critical G =
     sort_key (\<lambda>(u, v, dst, w, data). w)
       (concat (map (\<lambda>(u, v, k, data).
                       case distance data of
                         None \<Rightarrow> []
                       | Some dst \<Rightarrow>
                           if dst > 100000 then []
                           else [(u, v, dst,
                                  modified_weight_of alpha beta pop critical u v dst, data)])
                  (edges_view G)))"

text \<open>The state of the two passes: \<^verbatim>\<open>parent\<close>, \<^verbatim>\<open>rank\<close> and \<^verbatim>\<open>mst_edges\<close>.\<close>

type_synonym kruskal_state =
  "(node \<Rightarrow> node) \<times> (node \<Rightarrow> nat) \<times> (node \<times> node \<times> edge_data) list"

text \<open>Lines 133 to 140, for one edge.\<close>

definition kruskal_step :: "kruskal_state \<Rightarrow> weighted_edge \<Rightarrow> kruskal_state option" where
  "kruskal_step st e =
     (case st of (parent, rnk, mst_edges) \<Rightarrow>
      case e of (u, v, dst, w, data) \<Rightarrow>
        case uf_find parent u of
          None \<Rightarrow> None
        | Some (parent1, root_u) \<Rightarrow>
            (case uf_find parent1 v of
               None \<Rightarrow> None
             | Some (parent2, root_v) \<Rightarrow>
                 if root_u \<noteq> root_v
                 then (case uf_union (parent2, rnk) u v of
                         None \<Rightarrow> None
                       | Some (parent3, rnk3) \<Rightarrow> Some (parent3, rnk3, mst_edges @ [(u, v, data)]))
                 else Some (parent2, rnk, mst_edges)))"

text \<open>
  \<^verbatim>\<open>mst.degree(facility)\<close> in the simple graph built from \<^verbatim>\<open>mst_edges\<close>: the number of
  neighbours, a loop counting twice.
\<close>

definition simple_degree :: "(node \<times> node \<times> edge_data) list \<Rightarrow> node \<Rightarrow> nat" where
  "simple_degree mst_edges f =
     (let nbrs = set (concat (map (\<lambda>(u, v, data).
                                     (if u = f then [v] else []) @ (if v = f then [u] else []))
                                mst_edges))
      in card nbrs + (if f \<in> nbrs then 1 else 0))"

text \<open>Lines 155 to 159, for one edge: the search for the best edge of a facility.\<close>

definition repair_scan ::
  "node \<Rightarrow> (node \<Rightarrow> node) \<times> weighted_edge option \<Rightarrow> weighted_edge
     \<Rightarrow> ((node \<Rightarrow> node) \<times> weighted_edge option) option" where
  "repair_scan facility st e =
     (case st of (parent, best_edge) \<Rightarrow>
      case e of (u, v, dst, w, data) \<Rightarrow>
        if u = facility \<or> v = facility
        then (case uf_find parent u of
                None \<Rightarrow> None
              | Some (parent1, root_u) \<Rightarrow>
                  (case uf_find parent1 v of
                     None \<Rightarrow> None
                   | Some (parent2, root_v) \<Rightarrow>
                       if root_u \<noteq> root_v
                       then (case best_edge of
                               None \<Rightarrow> Some (parent2, Some e)
                             | Some (bu, bv, bdist, best_weight, bdata) \<Rightarrow>
                                 if w < best_weight then Some (parent2, Some e)
                                 else Some (parent2, best_edge))
                       else Some (parent2, best_edge)))
        else Some (parent, best_edge))"

text \<open>Lines 149 to 167, for one critical facility.\<close>

definition repair_facility ::
  "graph \<Rightarrow> weighted_edge list \<Rightarrow> kruskal_state \<Rightarrow> node \<Rightarrow> kruskal_state option" where
  "repair_facility G edges st facility =
     (case st of (parent, rnk, mst_edges) \<Rightarrow>
        if facility \<in> set (gnodes G) \<and> simple_degree mst_edges facility < 2
        then (case fold_option (repair_scan facility) (parent, None) edges of
                None \<Rightarrow> None
              | Some (parent1, best_edge) \<Rightarrow>
                  (case best_edge of
                     None \<Rightarrow> Some (parent1, rnk, mst_edges)
                   | Some (u, v, dst, w, data) \<Rightarrow>
                       (case uf_union (parent1, rnk) u v of
                          None \<Rightarrow> None
                        | Some (parent2, rnk2) \<Rightarrow>
                            Some (parent2, rnk2, mst_edges @ [(u, v, data)]))))
        else Some st)"

text \<open>
  The entries of the analysis that count nodes and edges: \<^verbatim>\<open>len(mst)\<close> and
  \<^verbatim>\<open>mst.number_of_edges()\<close>, where \<^verbatim>\<open>mst\<close> is a simple graph that holds every node of \<open>G\<close> and
  the selected edges.
\<close>

record mst_analysis =
  node_count :: nat
  edge_count :: nat

text \<open>\<^verbatim>\<open>sum(population_by_id.values())\<close>.\<close>

definition population_total :: "neighborhood_row list \<Rightarrow> real" where
  "population_total nbs =
     sum_list (map (get_population (population_by_id nbs)) (remdups (map nb_id nbs)))"

text \<open>
  \<open>population_weighted_mst\<close>. Line 182 divides by the number of nodes and line 191 by the
  total population of a table that is not empty; both raise \<^verbatim>\<open>ZeroDivisionError\<close> on zero.
  The other entries of the analysis and the execution time are left out.
\<close>

definition population_weighted_mst ::
  "graph \<Rightarrow> neighborhood_row list \<Rightarrow> facility_row list \<Rightarrow> real \<Rightarrow> real
     \<Rightarrow> (py_error + (node \<times> node \<times> edge_data) list \<times> mst_analysis) option" where
  "population_weighted_mst G nbs fcs alpha beta =
     (let pop = population_by_id nbs;
          critical_facilities = critical_facilities_of fcs;
          edges = weighted_edges alpha beta pop critical_facilities G
      in case fold_option kruskal_step (\<lambda>n. n, \<lambda>n. 0, []) edges of
           None \<Rightarrow> None
         | Some built \<Rightarrow>
             (case fold_option (repair_facility G edges) built critical_facilities of
                None \<Rightarrow> None
              | Some (parent, rnk, mst_edges) \<Rightarrow>
                  if gnodes G = [] then Some (Inl ZeroDivisionError)
                  else if nbs \<noteq> [] \<and> population_total nbs = 0
                  then Some (Inl ZeroDivisionError)
                  else Some (Inr (mst_edges,
                                  \<lparr>node_count = length (gnodes G),
                                   edge_count =
                                     card ((\<lambda>(u, v, data). {u, v}) ` set mst_edges)\<rparr>))))"

text \<open>
  \<^verbatim>\<open>nx.has_path(mst, u, v)\<close> of the library, on the simple graph whose edges are the pairs
  \<open>es\<close> and that contains \<open>u\<close> and \<open>v\<close>: the two nodes are joined by a path.
\<close>

definition has_path :: "(node \<times> node) list \<Rightarrow> node \<Rightarrow> node \<Rightarrow> bool" where
  "has_path es u v \<longleftrightarrow> u = v \<or> (u, v) \<in> (set (es @ map prod.swap es))\<^sup>+"

definition pairs :: "(node \<times> node \<times> edge_data) list \<Rightarrow> (node \<times> node) list" where
  "pairs mst_edges = map (\<lambda>(u, v, data). (u, v)) mst_edges"

text \<open>\<^verbatim>\<open>G[u][v]\<close>, which raises \<^verbatim>\<open>KeyError\<close> when \<open>u\<close> is no node or \<open>v\<close> no neighbour of it.\<close>

definition graph_item :: "graph \<Rightarrow> node \<Rightarrow> node \<Rightarrow> py_error + (nat \<times> edge_data) list" where
  "graph_item G u v =
     (if u \<notin> set (gnodes G) \<or> edges_between G u v = [] then Inl KeyError
      else Inr (edges_between G u v))"

text \<open>
  The search for \<^verbatim>\<open>best_key\<close> among the parallel edges (lines 322 to 326 and 347 to 351):
  the first edge of the road type with the least value of the attribute; an edge without
  the attribute counts as infinite and is never taken. The result carries the attributes
  \<^verbatim>\<open>G[u][v][best_key]\<close> of the key found.
\<close>

definition best_key_by ::
  "string \<Rightarrow> (edge_data \<Rightarrow> real option) \<Rightarrow> (nat \<times> edge_data) list
     \<Rightarrow> (nat \<times> edge_data) option" where
  "best_key_by rt attr items =
     snd (foldl (\<lambda>(least, best_key) (key, data).
                   if road_type data = Some rt \<and>
                      (case attr data of
                         None \<Rightarrow> False
                       | Some x \<Rightarrow> (case least of None \<Rightarrow> True | Some m \<Rightarrow> x < m))
                   then (attr data, Some (key, data))
                   else (least, best_key))
            (None, None) items)"

text \<open>Lines 318 to 329, for one row of the existing roads.\<close>

definition existing_step ::
  "graph \<Rightarrow> py_error + (node \<times> node \<times> edge_data) list \<Rightarrow> node \<times> node
     \<Rightarrow> py_error + (node \<times> node \<times> edge_data) list" where
  "existing_step G acc e =
     (case acc of
        Inl err \<Rightarrow> Inl err
      | Inr mst_edges \<Rightarrow>
          (case e of (u, v) \<Rightarrow>
             if u \<in> set (gnodes G) \<and> v \<in> set (gnodes G)
             then (case graph_item G u v of
                     Inl err \<Rightarrow> Inl err
                   | Inr items \<Rightarrow>
                       (case best_key_by ''existing'' distance items of
                          None \<Rightarrow> Inr mst_edges
                        | Some (key, data) \<Rightarrow> Inr (mst_edges @ [(u, v, data)])))
             else Inr mst_edges))"

definition existing_roads_kept ::
  "graph \<Rightarrow> existing_road_row list \<Rightarrow> py_error + (node \<times> node \<times> edge_data) list" where
  "existing_roads_kept G ers =
     foldl (existing_step G) (Inr []) (map (\<lambda>row. (er_from row, er_to row)) ers)"

text \<open>Lines 344 to 357, for one potential road; the state is the edge list and the remaining budget.\<close>

definition potential_step ::
  "graph \<Rightarrow> py_error + (node \<times> node \<times> edge_data) list \<times> real \<Rightarrow> node \<times> node \<times> real
     \<Rightarrow> py_error + (node \<times> node \<times> edge_data) list \<times> real" where
  "potential_step G acc e =
     (case acc of
        Inl err \<Rightarrow> Inl err
      | Inr (mst_edges, remaining_budget) \<Rightarrow>
          (case e of (u, v, road_cost) \<Rightarrow>
             if u \<in> set (gnodes G) \<and> v \<in> set (gnodes G) \<and> \<not> has_path (pairs mst_edges) u v
                \<and> road_cost \<le> remaining_budget
             then (case graph_item G u v of
                     Inl err \<Rightarrow> Inl err
                   | Inr items \<Rightarrow>
                       (case best_key_by ''potential'' cost items of
                          None \<Rightarrow> Inr (mst_edges, remaining_budget)
                        | Some (key, data) \<Rightarrow>
                            Inr (mst_edges @ [(u, v, data)], remaining_budget - road_cost)))
             else Inr (mst_edges, remaining_budget)))"

text \<open>
  The part that \<open>budget_constrained_mst\<close> (lines 316 to 366) and \<open>connectivity_based_mst\<close>
  (lines 422 to 488) have in common, on the sorted list of the potential roads.
\<close>

definition budgeted_mst ::
  "graph \<Rightarrow> real \<Rightarrow> existing_road_row list \<Rightarrow> (node \<times> node \<times> real) list
     \<Rightarrow> py_error + (node \<times> node \<times> edge_data) list \<times> real" where
  "budgeted_mst G budget ers potential_edges =
     (case existing_roads_kept G ers of
        Inl err \<Rightarrow> Inl err
      | Inr kept \<Rightarrow>
          (case foldl (potential_step G) (Inr (kept, budget)) potential_edges of
             Inl err \<Rightarrow> Inl err
           | Inr (mst_edges, remaining_budget) \<Rightarrow> Inr (mst_edges, budget - remaining_budget)))"

definition potential_edges_of :: "potential_road_row list \<Rightarrow> (node \<times> node \<times> real) list" where
  "potential_edges_of prs = map (\<lambda>row. (pr_from row, pr_to row, pr_cost row)) prs"

definition budget_constrained_mst ::
  "graph \<Rightarrow> real \<Rightarrow> existing_road_row list \<Rightarrow> potential_road_row list
     \<Rightarrow> py_error + (node \<times> node \<times> edge_data) list \<times> real" where
  "budget_constrained_mst G budget ers prs =
     budgeted_mst G budget ers (sort_key (\<lambda>(u, v, road_cost). road_cost) (potential_edges_of prs))"

definition important_nodes_of :: "facility_row list \<Rightarrow> node list" where
  "important_nodes_of fcs =
     map fc_id
       (filter (\<lambda>row. lower (fc_type row)
                         \<in> set [''hospital'', ''school'', ''government'', ''police'', ''fire''])
          fcs)"

definition edge_priority :: "node list \<Rightarrow> node \<times> node \<times> real \<Rightarrow> nat \<times> real" where
  "edge_priority important_nodes e =
     (case e of (u, v, road_cost) \<Rightarrow>
        if u \<in> set important_nodes \<and> v \<in> set important_nodes then (0, road_cost)
        else if u \<in> set important_nodes \<or> v \<in> set important_nodes then (1, road_cost)
        else (2, road_cost))"

definition connectivity_based_mst ::
  "graph \<Rightarrow> real \<Rightarrow> existing_road_row list \<Rightarrow> potential_road_row list \<Rightarrow> facility_row list
     \<Rightarrow> py_error + (node \<times> node \<times> edge_data) list \<times> real" where
  "connectivity_based_mst G budget ers prs fcs =
     budgeted_mst G budget ers
       (sort_key (edge_priority (important_nodes_of fcs)) (potential_edges_of prs))"

subsection \<open>Forests\<close>

text \<open>
  Two nodes are connected by the edges \<open>es\<close> when a path of edges, taken in either
  direction, joins them. A list of edges is a forest when no edge joins two nodes that the
  other edges of the list connect already: the list has no cycle, no loop and no edge
  twice. The components of a graph are the classes of its nodes under connection.
\<close>

definition uconn :: "(node \<times> node) list \<Rightarrow> (node \<times> node) set" where
  "uconn es = (set es \<union> (set es)\<inverse>)\<^sup>*"

definition forest :: "(node \<times> node) list \<Rightarrow> bool" where
  "forest es \<longleftrightarrow> (\<forall>i < length es. es ! i \<notin> uconn (take i es @ drop (Suc i) es))"

definition nconn :: "node list \<Rightarrow> (node \<times> node) list \<Rightarrow> (node \<times> node) set" where
  "nconn nodes es = uconn es \<inter> set nodes \<times> set nodes"

definition component_count :: "node list \<Rightarrow> (node \<times> node) list \<Rightarrow> nat" where
  "component_count nodes es = card (set nodes // nconn nodes es)"

lemma uconn_refl [simp]: "(x, x) \<in> uconn es"
  by (simp add: uconn_def)

lemma uconn_sym: "(x, y) \<in> uconn es \<Longrightarrow> (y, x) \<in> uconn es"
proof -
  have "sym (set es \<union> (set es)\<inverse>)" by (auto simp: sym_def)
  then have "sym ((set es \<union> (set es)\<inverse>)\<^sup>*)" by (rule sym_rtrancl)
  then show "(x, y) \<in> uconn es \<Longrightarrow> (y, x) \<in> uconn es"
    unfolding uconn_def by (rule symD)
qed

lemma uconn_trans: "(x, y) \<in> uconn es \<Longrightarrow> (y, z) \<in> uconn es \<Longrightarrow> (x, z) \<in> uconn es"
  unfolding uconn_def by (rule rtrancl_trans)

lemma uconn_edge: "(x, y) \<in> set es \<Longrightarrow> (x, y) \<in> uconn es"
  unfolding uconn_def by blast

lemma uconn_mono: "set es \<subseteq> set es' \<Longrightarrow> uconn es \<subseteq> uconn es'"
  unfolding uconn_def by (intro rtrancl_mono) blast

lemma uconn_snoc_cases:
  assumes "(a, b) \<in> uconn (es @ [(u, v)])"
  shows "(a, b) \<in> uconn es
       \<or> ((a, u) \<in> uconn es \<and> (v, b) \<in> uconn es)
       \<or> ((a, v) \<in> uconn es \<and> (u, b) \<in> uconn es)"
  using assms unfolding uconn_def
proof (induction rule: rtrancl_induct)
  case base
  then show ?case by simp
next
  case (step y z)
  from step.hyps(2) consider "(y, z) \<in> set es \<union> (set es)\<inverse>" | "y = u" "z = v" | "y = v" "z = u"
    by auto
  then show ?case
  proof cases
    case 1
    then have yz: "(y, z) \<in> (set es \<union> (set es)\<inverse>)\<^sup>*" by blast
    from step.IH show ?thesis
      using yz by (meson rtrancl_trans)
  next
    case 2
    from step.IH show ?thesis
      using 2 uconn_sym [of _ _ es] uconn_trans [of _ _ es] unfolding uconn_def
      by (metis rtrancl.rtrancl_refl)
  next
    case 3
    from step.IH show ?thesis
      using 3 uconn_sym [of _ _ es] uconn_trans [of _ _ es] unfolding uconn_def
      by (metis rtrancl.rtrancl_refl)
  qed
qed

lemma uconn_snoc_iff:
  "(a, b) \<in> uconn (es @ [(u, v)]) \<longleftrightarrow>
     (a, b) \<in> uconn es
     \<or> ((a, u) \<in> uconn es \<and> (v, b) \<in> uconn es)
     \<or> ((a, v) \<in> uconn es \<and> (u, b) \<in> uconn es)"
proof
  assume "(a, b) \<in> uconn (es @ [(u, v)])"
  then show "(a, b) \<in> uconn es
     \<or> ((a, u) \<in> uconn es \<and> (v, b) \<in> uconn es)
     \<or> ((a, v) \<in> uconn es \<and> (u, b) \<in> uconn es)"
    by (rule uconn_snoc_cases)
next
  let ?es' = "es @ [(u, v)]"
  have sub: "uconn es \<subseteq> uconn ?es'" by (rule uconn_mono) auto
  have uv: "(u, v) \<in> uconn ?es'" by (rule uconn_edge) simp
  then have vu: "(v, u) \<in> uconn ?es'" by (rule uconn_sym)
  assume "(a, b) \<in> uconn es
     \<or> ((a, u) \<in> uconn es \<and> (v, b) \<in> uconn es)
     \<or> ((a, v) \<in> uconn es \<and> (u, b) \<in> uconn es)"
  then show "(a, b) \<in> uconn ?es'"
    using sub uv vu uconn_trans [of _ _ ?es'] by blast
qed

lemma forest_snoc:
  assumes "forest es" and "(u, v) \<notin> uconn es"
  shows "forest (es @ [(u, v)])"
  unfolding forest_def
proof (intro allI impI)
  fix i assume i: "i < length (es @ [(u, v)])"
  show "(es @ [(u, v)]) ! i \<notin> uconn (take i (es @ [(u, v)]) @ drop (Suc i) (es @ [(u, v)]))"
  proof (cases "i < length es")
    case False
    then have "i = length es" using i by simp
    then show ?thesis using assms(2) by simp
  next
    case True
    let ?rest = "take i es @ drop (Suc i) es"
    obtain a b where ab: "es ! i = (a, b)" by (cases "es ! i")
    have notin: "(a, b) \<notin> uconn ?rest"
      using assms(1) True ab by (auto simp: forest_def)
    have sub: "uconn ?rest \<subseteq> uconn es"
      by (rule uconn_mono) (auto dest: in_set_takeD in_set_dropD)
    have abes: "(a, b) \<in> uconn es"
      using True ab by (intro uconn_edge) (metis nth_mem)
    have "(a, b) \<notin> uconn (?rest @ [(u, v)])"
    proof
      assume "(a, b) \<in> uconn (?rest @ [(u, v)])"
      then consider "(a, b) \<in> uconn ?rest"
        | "(a, u) \<in> uconn ?rest" "(v, b) \<in> uconn ?rest"
        | "(a, v) \<in> uconn ?rest" "(u, b) \<in> uconn ?rest"
        using uconn_snoc_cases by blast
      then show False
      proof cases
        case 1
        then show False using notin by simp
      next
        case 2
        then have "(u, a) \<in> uconn es" "(b, v) \<in> uconn es"
          using sub uconn_sym by blast+
        then have "(u, v) \<in> uconn es" using abes uconn_trans by blast
        then show False using assms(2) by simp
      next
        case 3
        then have "(v, a) \<in> uconn es" "(b, u) \<in> uconn es"
          using sub uconn_sym by blast+
        then have "(v, u) \<in> uconn es" using abes uconn_trans by blast
        then show False using assms(2) uconn_sym by blast
      qed
    qed
    then show ?thesis using True ab by (simp add: nth_append)
  qed
qed

lemma forest_butlast:
  assumes "forest (es @ [e])"
  shows "forest es \<and> e \<notin> uconn es"
proof
  show "forest es"
    unfolding forest_def
  proof (intro allI impI)
    fix i assume i: "i < length es"
    have "i < length (es @ [e])" using i by simp
    then have "(es @ [e]) ! i \<notin> uconn (take i (es @ [e]) @ drop (Suc i) (es @ [e]))"
      using assms unfolding forest_def by blast
    moreover have "uconn (take i es @ drop (Suc i) es)
        \<subseteq> uconn (take i (es @ [e]) @ drop (Suc i) (es @ [e]))"
      using i by (intro uconn_mono) auto
    ultimately show "es ! i \<notin> uconn (take i es @ drop (Suc i) es)"
      using i by (auto simp: nth_append)
  qed
  have "length es < length (es @ [e])" by simp
  then have "(es @ [e]) ! length es
      \<notin> uconn (take (length es) (es @ [e]) @ drop (Suc (length es)) (es @ [e]))"
    using assms unfolding forest_def by blast
  then show "e \<notin> uconn es" by simp
qed

lemma equiv_nconn: "equiv (set nodes) (nconn nodes es)"
  unfolding nconn_def
  by (intro equivI refl_onI symI transI) (auto intro: uconn_sym uconn_trans)

lemma nconn_iff: "(z, y) \<in> nconn nodes es \<longleftrightarrow> y \<in> set nodes \<and> z \<in> set nodes \<and> (z, y) \<in> uconn es"
  by (auto simp: nconn_def)

lemma nconn_class_snoc:
  assumes "x \<in> set nodes" "u \<in> set nodes" "v \<in> set nodes"
  shows "nconn nodes (es @ [(u, v)]) `` {x} =
     (if x \<in> nconn nodes es `` {u} \<union> nconn nodes es `` {v}
      then nconn nodes es `` {u} \<union> nconn nodes es `` {v}
      else nconn nodes es `` {x})"
proof -
  have sym: "\<And>a b. (a, b) \<in> uconn es \<Longrightarrow> (b, a) \<in> uconn es" by (rule uconn_sym)
  have tr: "\<And>a b c. (a, b) \<in> uconn es \<Longrightarrow> (b, c) \<in> uconn es \<Longrightarrow> (a, c) \<in> uconn es"
    by (rule uconn_trans)
  have new: "(x, y) \<in> nconn nodes (es @ [(u, v)]) \<longleftrightarrow>
      y \<in> set nodes \<and> ((x, y) \<in> uconn es
        \<or> ((x, u) \<in> uconn es \<and> (v, y) \<in> uconn es)
        \<or> ((x, v) \<in> uconn es \<and> (u, y) \<in> uconn es))" for y
    using assms by (auto simp: nconn_iff uconn_snoc_iff)
  show ?thesis
  proof (cases "x \<in> nconn nodes es `` {u} \<union> nconn nodes es `` {v}")
    case True
    then have xc: "(u, x) \<in> uconn es \<or> (v, x) \<in> uconn es" by (auto simp: nconn_iff)
    have "(x, y) \<in> nconn nodes (es @ [(u, v)])
        \<longleftrightarrow> (u, y) \<in> nconn nodes es \<or> (v, y) \<in> nconn nodes es" for y
    proof
      assume "(x, y) \<in> nconn nodes (es @ [(u, v)])"
      then have y: "y \<in> set nodes" and c: "(x, y) \<in> uconn es
        \<or> ((x, u) \<in> uconn es \<and> (v, y) \<in> uconn es)
        \<or> ((x, v) \<in> uconn es \<and> (u, y) \<in> uconn es)"
        unfolding new by simp_all
      from c xc have "(u, y) \<in> uconn es \<or> (v, y) \<in> uconn es"
        by (meson tr)
      then show "(u, y) \<in> nconn nodes es \<or> (v, y) \<in> nconn nodes es"
        using y assms by (simp add: nconn_iff)
    next
      assume "(u, y) \<in> nconn nodes es \<or> (v, y) \<in> nconn nodes es"
      then have y: "y \<in> set nodes" and c: "(u, y) \<in> uconn es \<or> (v, y) \<in> uconn es"
        by (auto simp: nconn_iff)
      from xc have xc': "(x, u) \<in> uconn es \<or> (x, v) \<in> uconn es" using sym by blast
      from c xc' have "(x, y) \<in> uconn es
        \<or> ((x, u) \<in> uconn es \<and> (v, y) \<in> uconn es)
        \<or> ((x, v) \<in> uconn es \<and> (u, y) \<in> uconn es)"
        by (meson tr)
      then show "(x, y) \<in> nconn nodes (es @ [(u, v)])"
        unfolding new using y by simp
    qed
    then show ?thesis using True by auto
  next
    case False
    then have nx: "(u, x) \<notin> uconn es" "(v, x) \<notin> uconn es" using assms by (auto simp: nconn_iff)
    then have nx': "(x, u) \<notin> uconn es" "(x, v) \<notin> uconn es" using sym by blast+
    have "(x, y) \<in> nconn nodes (es @ [(u, v)]) \<longleftrightarrow> (x, y) \<in> nconn nodes es" for y
    proof -
      have "(x, y) \<in> nconn nodes (es @ [(u, v)]) \<longleftrightarrow> y \<in> set nodes \<and> (x, y) \<in> uconn es"
        using new [of y] nx' by blast
      moreover have "(x, y) \<in> nconn nodes es \<longleftrightarrow> y \<in> set nodes \<and> (x, y) \<in> uconn es"
        using assms(1) by (simp add: nconn_iff)
      ultimately show ?thesis by simp
    qed
    then show ?thesis using False by auto
  qed
qed


lemma class_of_member:
  assumes "x \<in> nconn nodes es `` {u}"
  shows "nconn nodes es `` {x} = nconn nodes es `` {u}"
proof -
  have "(u, x) \<in> nconn nodes es" using assms by simp
  then show ?thesis
    using equiv_class_eq [OF equiv_nconn, of u x nodes es] by simp
qed

lemma component_merge:
  assumes u: "u \<in> set nodes" and v: "v \<in> set nodes" and uv: "(u, v) \<notin> uconn es"
  shows "card (set nodes // nconn nodes (es @ [(u, v)])) + 1 = card (set nodes // nconn nodes es)"
proof -
  let ?N = "set nodes" and ?R = "nconn nodes es" and ?R' = "nconn nodes (es @ [(u, v)])"
  let ?Cu = "?R `` {u}" and ?Cv = "?R `` {v}"
  define f where "f C = (if C = ?Cu \<or> C = ?Cv then ?Cu \<union> ?Cv else C)" for C
  have eq: "equiv ?N ?R" by (rule equiv_nconn)
  have "?R \<subseteq> ?N \<times> ?N" by (auto simp: nconn_def)
  then have fin: "finite (?N // ?R)" by (intro finite_quotient) simp_all
  have Cu: "?Cu \<in> ?N // ?R" and Cv: "?Cv \<in> ?N // ?R" using u v by (auto intro: quotientI)
  have uCu: "u \<in> ?Cu" and vCv: "v \<in> ?Cv" using u v by (auto simp: nconn_iff)
  have ne: "?Cu \<noteq> ?Cv"
  proof
    assume "?Cu = ?Cv"
    then have "v \<in> ?Cu" using vCv by simp
    then show False using uv by (simp add: nconn_iff)
  qed
  have cls: "?R' `` {x} = f (?R `` {x})" if x: "x \<in> ?N" for x
  proof (cases "x \<in> ?Cu \<union> ?Cv")
    case True
    then have "?R `` {x} = ?Cu \<or> ?R `` {x} = ?Cv"
      using class_of_member [of x nodes es u] class_of_member [of x nodes es v] by blast
    then have "f (?R `` {x}) = ?Cu \<union> ?Cv" by (auto simp: f_def)
    then show ?thesis using True nconn_class_snoc [OF x u v, of es] by simp
  next
    case False
    have "x \<in> ?R `` {x}" using x by (simp add: nconn_iff)
    then have "?R `` {x} \<noteq> ?Cu" "?R `` {x} \<noteq> ?Cv" using False by auto
    then have "f (?R `` {x}) = ?R `` {x}" by (simp add: f_def)
    then show ?thesis using False nconn_class_snoc [OF x u v, of es] by simp
  qed
  have img: "?N // ?R' = f ` (?N // ?R)"
  proof (rule set_eqI)
    fix X
    show "X \<in> ?N // ?R' \<longleftrightarrow> X \<in> f ` (?N // ?R)"
    proof
      assume "X \<in> ?N // ?R'"
      then obtain x where x: "x \<in> ?N" "X = ?R' `` {x}" by (auto elim: quotientE)
      then have "X = f (?R `` {x})" using cls by simp
      then show "X \<in> f ` (?N // ?R)" using x(1) by (auto intro: quotientI)
    next
      assume "X \<in> f ` (?N // ?R)"
      then obtain C where C: "C \<in> ?N // ?R" "X = f C" by auto
      then obtain x where x: "x \<in> ?N" "C = ?R `` {x}" by (auto elim: quotientE)
      then have "X = ?R' `` {x}" using cls C(2) by simp
      then show "X \<in> ?N // ?R'" using x(1) by (auto intro: quotientI)
    qed
  qed
  have same: "f ?Cv = f ?Cu" by (simp add: f_def)
  have drop: "f ` (?N // ?R) = f ` (?N // ?R - {?Cv})"
  proof (rule set_eqI)
    fix X
    show "X \<in> f ` (?N // ?R) \<longleftrightarrow> X \<in> f ` (?N // ?R - {?Cv})"
    proof
      assume "X \<in> f ` (?N // ?R)"
      then obtain C where C: "C \<in> ?N // ?R" "X = f C" by auto
      show "X \<in> f ` (?N // ?R - {?Cv})"
      proof (cases "C = ?Cv")
        case True
        then have "X = f ?Cu" using C(2) same by simp
        moreover have "?Cu \<in> ?N // ?R - {?Cv}" using Cu ne by simp
        ultimately show ?thesis by (rule image_eqI)
      next
        case False
        then have "C \<in> ?N // ?R - {?Cv}" using C(1) by simp
        with C(2) show ?thesis by (rule image_eqI)
      qed
    next
      assume "X \<in> f ` (?N // ?R - {?Cv})"
      then show "X \<in> f ` (?N // ?R)" by blast
    qed
  qed
  have no_union: "E \<noteq> ?Cu \<union> ?Cv" if "E \<in> ?N // ?R" "E \<noteq> ?Cu" for E
  proof
    assume "E = ?Cu \<union> ?Cv"
    then have "u \<in> E" using uCu by simp
    then have "E \<inter> ?Cu \<noteq> {}" using uCu by blast
    then show False using quotient_disj [OF eq that(1) Cu] that(2) by blast
  qed
  have inj: "inj_on f (?N // ?R - {?Cv})"
  proof (rule inj_onI)
    fix C D assume C: "C \<in> ?N // ?R - {?Cv}" and D: "D \<in> ?N // ?R - {?Cv}"
      and fCD: "f C = f D"
    have fC: "f C = (if C = ?Cu then ?Cu \<union> ?Cv else C)" using C by (simp add: f_def)
    have fD: "f D = (if D = ?Cu then ?Cu \<union> ?Cv else D)" using D by (simp add: f_def)
    show "C = D"
    proof (cases "C = ?Cu")
      case True
      show ?thesis
      proof (cases "D = ?Cu")
        case True
        with \<open>C = ?Cu\<close> show ?thesis by simp
      next
        case False
        then have "D = ?Cu \<union> ?Cv" using fCD fC fD True by simp
        then show ?thesis using no_union [of D] D False by simp
      qed
    next
      case False
      show ?thesis
      proof (cases "D = ?Cu")
        case True
        then have "C = ?Cu \<union> ?Cv" using fCD fC fD False by simp
        then show ?thesis using no_union [of C] C False by simp
      next
        case False
        with \<open>C \<noteq> ?Cu\<close> show ?thesis using fCD fC fD by simp
      qed
    qed
  qed
  have "card (?N // ?R') = card (?N // ?R - {?Cv})"
    unfolding img drop by (rule card_image [OF inj])
  also have "\<dots> = card (?N // ?R) - 1" using Cv fin by simp
  finally have "card (?N // ?R') = card (?N // ?R) - 1" .
  moreover have "0 < card (?N // ?R)" using Cv fin by (auto simp: card_gt_0_iff)
  ultimately show ?thesis by simp
qed

lemma component_count_empty:
  "card (set nodes // nconn nodes []) = card (set nodes)"
proof -
  have "nconn nodes [] `` {x} = {x}" if "x \<in> set nodes" for x
    using that by (auto simp: nconn_def uconn_def)
  then have "set nodes // nconn nodes [] = (\<lambda>x. {x}) ` set nodes"
    by (auto simp: quotient_def)
  moreover have "inj_on (\<lambda>x::node. {x}) (set nodes)" by (simp add: inj_on_def)
  ultimately show ?thesis by (simp add: card_image)
qed

lemma forest_edge_count:
  assumes "forest es" and "\<forall>(u, v) \<in> set es. u \<in> set nodes \<and> v \<in> set nodes"
  shows "length es + card (set nodes // nconn nodes es) = card (set nodes)"
  using assms
proof (induction es rule: rev_induct)
  case Nil
  then show ?case by (simp add: component_count_empty)
next
  case (snoc e es)
  obtain u v where e: "e = (u, v)" by (cases e)
  have f: "forest es" and n: "(u, v) \<notin> uconn es"
    using forest_butlast [OF snoc.prems(1)] e by simp_all
  have uv: "u \<in> set nodes" "v \<in> set nodes" using snoc.prems(2) e by auto
  have "length es + card (set nodes // nconn nodes es) = card (set nodes)"
    using snoc.IH [OF f] snoc.prems(2) by simp
  then show ?case
    using component_merge [OF uv n] e by simp
qed


subsection \<open>The union-find structure\<close>

text \<open>
  The representative of a node is the root that the parent pointers lead to. The invariant
  of the structure: the parent of a node is a node, and the rank grows strictly along the
  parent pointers, so that \<^verbatim>\<open>find\<close> returns the representative and keeps the
  representatives, and \<^verbatim>\<open>union\<close> joins two classes and keeps the others together.
\<close>

partial_function (option) root_of :: "(node \<Rightarrow> node) \<Rightarrow> node \<Rightarrow> node option" where
  "root_of parent n = (if parent n \<noteq> n then root_of parent (parent n) else Some n)"

definition rep :: "(node \<Rightarrow> node) \<Rightarrow> node \<Rightarrow> node" where
  "rep parent n = the (root_of parent n)"

definition uf_inv :: "node set \<Rightarrow> (node \<Rightarrow> node) \<Rightarrow> (node \<Rightarrow> nat) \<Rightarrow> bool" where
  "uf_inv N parent rnk \<longleftrightarrow>
     finite N \<and> (\<forall>x \<in> N. parent x \<in> N) \<and> (\<forall>x \<in> N. parent x \<noteq> x \<longrightarrow> rnk x < rnk (parent x))"

lemma rep_unfold: "rep p n = (if p n \<noteq> n then rep p (p n) else n)"
  unfolding rep_def by (subst root_of.simps) simp

lemma uf_induct [consumes 2, case_names root step]:
  assumes inv: "uf_inv N p r" and x: "x \<in> N"
    and root: "\<And>x. x \<in> N \<Longrightarrow> p x = x \<Longrightarrow> P x"
    and step: "\<And>x. x \<in> N \<Longrightarrow> p x \<noteq> x \<Longrightarrow> P (p x) \<Longrightarrow> P x"
  shows "P x"
  using x
proof (induction "Max (r ` N) - r x" arbitrary: x rule: less_induct)
  case less
  show ?case
  proof (cases "p x = x")
    case True
    then show ?thesis using root less.prems by simp
  next
    case False
    have px: "p x \<in> N" and lt: "r x < r (p x)"
      using inv less.prems False by (auto simp: uf_inv_def)
    have "r (p x) \<le> Max (r ` N)" using inv px by (auto simp: uf_inv_def)
    then have "Max (r ` N) - r (p x) < Max (r ` N) - r x" using lt by linarith
    from less.hyps [OF this px] show ?thesis using step less.prems False by simp
  qed
qed

lemma rep_root:
  assumes "uf_inv N p r" and "x \<in> N"
  shows "rep p x \<in> N \<and> p (rep p x) = rep p x \<and> (rep p x \<noteq> x \<longrightarrow> r x < r (rep p x))
       \<and> root_of p x = Some (rep p x)"
  using assms
proof (induction rule: uf_induct)
  case (root x)
  then show ?case by (simp add: rep_def root_of.simps)
next
  case (step x)
  have "r x < r (p x)" using assms(1) step(1,2) by (auto simp: uf_inv_def)
  moreover have "rep p x = rep p (p x)" using step(2) by (subst rep_unfold) simp
  moreover have "root_of p x = root_of p (p x)" using step(2) by (subst root_of.simps) simp
  ultimately show ?case using step(3) by (cases "rep p (p x) = p x") auto
qed


lemma compress_inv:
  assumes "uf_inv N p r" and "x \<in> N"
  shows "uf_inv N (p(x := rep p x)) r"
  using assms rep_root [OF assms] by (auto simp: uf_inv_def)

lemma compress_rep:
  assumes inv: "uf_inv N p r" and x: "x \<in> N" and y: "y \<in> N"
  shows "rep (p(x := rep p x)) y = rep p y"
  using compress_inv [OF inv x] y
proof (induction rule: uf_induct)
  case (root y)
  show ?case
  proof (cases "y = x")
    case True
    then have "rep p x = x" using root(2) by simp
    then show ?thesis using True root(2) by (subst rep_unfold) simp
  next
    case False
    then have "p y = y" using root(2) by simp
    then show ?thesis using False by (subst rep_unfold, subst (2) rep_unfold) simp
  qed
next
  case (step y)
  let ?q = "p(x := rep p x)"
  have "rep ?q y = rep ?q (?q y)" using step(2) by (subst rep_unfold) simp
  also have "\<dots> = rep p (?q y)" by (rule step(3))
  also have "\<dots> = rep p y"
  proof (cases "y = x")
    case True
    have "p (rep p x) = rep p x" using rep_root [OF inv x] by simp
    then have "rep p (rep p x) = rep p x" by (subst rep_unfold) simp
    then show ?thesis using True by simp
  next
    case False
    then have "p y \<noteq> y" using step(2) by simp
    then show ?thesis using False by (subst (2) rep_unfold) simp
  qed
  finally show ?case .
qed

lemma uf_find_correct:
  assumes inv: "uf_inv N p r" and x: "x \<in> N"
  shows "\<exists>p'. uf_find p x = Some (p', rep p x) \<and> uf_inv N p' r \<and> (\<forall>y \<in> N. rep p' y = rep p y)"
  using assms(1) x
proof (induction rule: uf_induct)
  case (root x)
  then have "uf_find p x = Some (p, x)" "rep p x = x"
    by (simp_all add: uf_find.simps rep_unfold)
  then show ?case using inv by auto
next
  case (step x)
  then obtain p1 where p1: "uf_find p (p x) = Some (p1, rep p (p x))" "uf_inv N p1 r"
      "\<forall>y \<in> N. rep p1 y = rep p y"
    by blast
  have rx: "rep p x = rep p (p x)" using step(2) by (subst rep_unfold) simp
  have find: "uf_find p x = Some (p1(x := rep p x), rep p x)"
    using step(2) p1(1) rx by (subst uf_find.simps) simp
  have r1: "rep p1 x = rep p x" using p1(3) step(1) by simp
  have "uf_inv N (p1(x := rep p1 x)) r" by (rule compress_inv [OF p1(2) step(1)])
  moreover have "\<forall>y \<in> N. rep (p1(x := rep p1 x)) y = rep p y"
    using compress_rep [OF p1(2) step(1)] p1(3) by simp
  ultimately show ?case using find r1 by auto
qed

lemma link_rep_aux:
  assumes inv: "uf_inv N p r" and a: "p a = a" and b: "p b = b" and ab: "a \<noteq> b"
    and qa: "q a = b" and qo: "\<And>y. y \<noteq> a \<Longrightarrow> q y = p y"
    and x: "x \<in> N"
  shows "rep q x = (if rep p x = a then b else rep p x)"
  using inv x
proof (induction rule: uf_induct)
  case (root x)
  have "q b = b" using b ab qo by simp
  then have rb: "rep q b = b" by (subst rep_unfold) simp
  show ?case
  proof (cases "x = a")
    case True
    have "rep q a = rep q b" using ab qa by (subst rep_unfold) simp
    then have l: "rep q a = b" using rb by (simp only:)
    have r: "rep p a = a" using a by (subst rep_unfold) simp
    show ?thesis unfolding True l r by simp
  next
    case False
    then have "q x = x" using root(2) qo by simp
    then have "rep q x = x" by (subst rep_unfold) simp
    moreover have "rep p x = x" using root(2) by (subst rep_unfold) simp
    ultimately show ?thesis using False by simp
  qed
next
  case (step x)
  have xa: "x \<noteq> a" using step(2) a by auto
  then have "q x = p x" by (rule qo)
  then have "rep q x = rep q (p x)" using step(2) by (subst rep_unfold) simp
  moreover have "rep p x = rep p (p x)" using step(2) by (subst rep_unfold) simp
  ultimately show ?case using step(3) by simp
qed

lemma link_rep:
  assumes inv: "uf_inv N p r" and a: "p a = a" and b: "p b = b" and ab: "a \<noteq> b"
    and x: "x \<in> N"
  shows "rep (p(a := b)) x = (if rep p x = a then b else rep p x)"
  by (rule link_rep_aux [OF inv a b ab _ _ x]) simp_all

text \<open>\<^verbatim>\<open>union\<close>\<close>

lemma uf_union_correct:
  assumes inv: "uf_inv N p r" and u: "u \<in> N" and v: "v \<in> N"
  shows "\<exists>p' r'. uf_union (p, r) u v = Some (p', r') \<and> uf_inv N p' r'
           \<and> rep p' u = rep p' v
           \<and> (\<forall>x \<in> N. \<forall>y \<in> N. rep p x = rep p y \<longrightarrow> rep p' x = rep p' y)"
proof -
  from uf_find_correct [OF inv u] obtain p1 where
    p1: "uf_find p u = Some (p1, rep p u)" "uf_inv N p1 r" "\<forall>y \<in> N. rep p1 y = rep p y"
    by blast
  from uf_find_correct [OF p1(2) v] obtain p2 where
    p2: "uf_find p1 v = Some (p2, rep p1 v)" "uf_inv N p2 r" "\<forall>y \<in> N. rep p2 y = rep p1 y"
    by blast
  let ?a = "rep p u" and ?b = "rep p v"
  have reps: "\<forall>y \<in> N. rep p2 y = rep p y" using p1(3) p2(3) by simp
  have b1: "rep p1 v = ?b" using p1(3) v by simp
  have ra: "?a \<in> N" "p2 ?a = ?a" and rb: "?b \<in> N" "p2 ?b = ?b"
    using rep_root [OF p2(2) u] rep_root [OF p2(2) v] reps u v by auto
  show ?thesis
  proof (cases "?a = ?b")
    case True
    then have "uf_union (p, r) u v = Some (p2, r)"
      using p1(1) p2(1) b1 by (simp add: uf_union_def)
    then show ?thesis using p2(2) reps True u v by auto
  next
    case False
    have inv_ab: "uf_inv N (p2(?a := ?b)) r" if "r ?a < r ?b"
      using p2(2) ra rb that by (auto simp: uf_inv_def)
    have inv_ba: "uf_inv N (p2(?b := ?a)) r" if "r ?b < r ?a"
      using p2(2) ra rb that by (auto simp: uf_inv_def)
    have inv_eq: "uf_inv N (p2(?b := ?a)) (r(?a := r ?a + 1))" if "r ?a = r ?b"
      unfolding uf_inv_def
    proof (intro conjI ballI impI)
      show "finite N" using p2(2) by (simp add: uf_inv_def)
      fix x assume x: "x \<in> N"
      show "(p2(?b := ?a)) x \<in> N" using p2(2) ra x by (auto simp: uf_inv_def)
      assume nr: "(p2(?b := ?a)) x \<noteq> x"
      show "(r(?a := r ?a + 1)) x < (r(?a := r ?a + 1)) ((p2(?b := ?a)) x)"
      proof (cases "x = ?b")
        case True
        then show ?thesis using that False by simp
      next
        case xb: False
        then have px: "p2 x \<noteq> x" using nr by simp
        then have xa: "x \<noteq> ?a" using ra by auto
        have "r x < r (p2 x)" using p2(2) x px by (auto simp: uf_inv_def)
        then show ?thesis using xb xa by auto
      qed
    qed
    have rep_ab: "rep (p2(?a := ?b)) x = (if rep p x = ?a then ?b else rep p x)" if "x \<in> N" for x
      using link_rep [OF p2(2) ra(2) rb(2) False that] reps that by simp
    have rep_ba: "rep (p2(?b := ?a)) x = (if rep p x = ?b then ?a else rep p x)" if "x \<in> N" for x
      using link_rep [OF p2(2) rb(2) ra(2) False [symmetric] that] reps that by simp
    consider "r ?a < r ?b" | "r ?b < r ?a" | "r ?a = r ?b" by linarith
    then show ?thesis
    proof cases
      case 1
      then have "uf_union (p, r) u v = Some (p2(?a := ?b), r)"
        using p1(1) p2(1) b1 False by (simp add: uf_union_def)
      then show ?thesis using inv_ab [OF 1] rep_ab u v by auto
    next
      case 2
      then have "uf_union (p, r) u v = Some (p2(?b := ?a), r)"
        using p1(1) p2(1) b1 False by (simp add: uf_union_def)
      then show ?thesis using inv_ba [OF 2] rep_ba u v by auto
    next
      case 3
      then have "uf_union (p, r) u v = Some (p2(?b := ?a), r(?a := r ?a + 1))"
        using p1(1) p2(1) b1 False by (simp add: uf_union_def)
      then show ?thesis using inv_eq [OF 3] rep_ba u v by auto
    qed
  qed
qed

subsection \<open>The edges selected by the three functions\<close>

text \<open>
  \<open>has_path\<close> is connection by the edges, and a loop whose body keeps an invariant and
  returns keeps it to the end and returns.
\<close>

lemma has_path_uconn: "has_path es u v \<longleftrightarrow> (u, v) \<in> uconn es"
proof -
  have "set (es @ map prod.swap es) = set es \<union> (set es)\<inverse>" by auto
  then show ?thesis
    unfolding has_path_def uconn_def by (simp add: rtrancl_eq_or_trancl) blast
qed

lemma pairs_snoc: "pairs (acc @ [(u, v, data)]) = pairs acc @ [(u, v)]"
  by (simp add: pairs_def)

lemma fold_option_inv:
  assumes "I s" and "\<And>s x. I s \<Longrightarrow> x \<in> set xs \<Longrightarrow> \<exists>s'. f s x = Some s' \<and> I s'"
  shows "\<exists>s'. fold_option f s xs = Some s' \<and> I s'"
  using assms
proof (induction xs arbitrary: s)
  case Nil
  then show ?case by simp
next
  case (Cons x xs)
  from Cons.prems(2) [OF Cons.prems(1), of x] obtain s1 where s1: "f s x = Some s1" "I s1"
    by auto
  have "\<exists>s'. fold_option f s1 xs = Some s' \<and> I s'"
    by (rule Cons.IH [OF s1(2)]) (use Cons.prems(2) in auto)
  then show ?case using s1 by simp
qed

text \<open>
  The invariant of the two passes of \<open>population_weighted_mst\<close>: the union-find structure is
  well formed, nodes that the selected edges connect have the same representative, and the
  selected edges are a forest on the nodes of the graph. An edge is added only between
  nodes with different representatives, hence between nodes that are not connected yet.
\<close>

definition kruskal_inv :: "graph \<Rightarrow> kruskal_state \<Rightarrow> bool" where
  "kruskal_inv G st \<longleftrightarrow>
     (case st of (p, r, acc) \<Rightarrow>
        uf_inv (set (gnodes G)) p r
        \<and> (\<forall>x \<in> set (gnodes G). \<forall>y \<in> set (gnodes G).
              (x, y) \<in> uconn (pairs acc) \<longrightarrow> rep p x = rep p y)
        \<and> forest (pairs acc)
        \<and> (\<forall>(u, v) \<in> set (pairs acc). u \<in> set (gnodes G) \<and> v \<in> set (gnodes G)))"

lemma uconn_nodes:
  assumes "\<forall>(u, v) \<in> set es. u \<in> N \<and> v \<in> N" and "(x, y) \<in> uconn es" and "x \<in> N"
  shows "y \<in> N"
  using assms(2) unfolding uconn_def
  by (induction rule: rtrancl_induct) (use assms(1,3) in auto)

lemma join_inv:
  assumes inv: "kruskal_inv G (p, r, acc)"
    and u: "u \<in> set (gnodes G)" and v: "v \<in> set (gnodes G)"
    and ne: "rep p u \<noteq> rep p v"
  shows "\<exists>p' r'. uf_union (p, r) u v = Some (p', r')
           \<and> kruskal_inv G (p', r', acc @ [(u, v, data)])"
proof -
  let ?N = "set (gnodes G)"
  from inv have all: "uf_inv ?N p r
      \<and> (\<forall>x \<in> ?N. \<forall>y \<in> ?N. (x, y) \<in> uconn (pairs acc) \<longrightarrow> rep p x = rep p y)
      \<and> forest (pairs acc)
      \<and> (\<forall>(u, v) \<in> set (pairs acc). u \<in> ?N \<and> v \<in> ?N)"
    unfolding kruskal_inv_def prod.case .
  from all have ui: "uf_inv ?N p r" by (rule conjunct1)
  from all have conn: "rep p x = rep p y"
    if "x \<in> ?N" "y \<in> ?N" "(x, y) \<in> uconn (pairs acc)" for x y
    using that by blast
  from all have fo: "forest (pairs acc)" by blast
  from all have ends: "\<forall>(u, v) \<in> set (pairs acc). u \<in> ?N \<and> v \<in> ?N" by blast
  from uf_union_correct [OF ui u v] obtain p' r' where
    un: "uf_union (p, r) u v = Some (p', r')" "uf_inv ?N p' r'" "rep p' u = rep p' v"
    and keep0: "\<forall>x \<in> ?N. \<forall>y \<in> ?N. rep p x = rep p y \<longrightarrow> rep p' x = rep p' y"
    by blast
  have keep: "rep p' x = rep p' y" if "x \<in> ?N" "y \<in> ?N" "rep p x = rep p y" for x y
    using keep0 that by blast
  have nc: "(u, v) \<notin> uconn (pairs acc)" using conn [OF u v] ne by blast
  have fo': "forest (pairs acc @ [(u, v)])" by (rule forest_snoc [OF fo nc])
  have conn': "rep p' x = rep p' y"
    if x: "x \<in> ?N" and y: "y \<in> ?N" and xy: "(x, y) \<in> uconn (pairs acc @ [(u, v)])" for x y
  proof -
    from uconn_snoc_cases [OF xy] consider
      "(x, y) \<in> uconn (pairs acc)"
      | "(x, u) \<in> uconn (pairs acc)" "(v, y) \<in> uconn (pairs acc)"
      | "(x, v) \<in> uconn (pairs acc)" "(u, y) \<in> uconn (pairs acc)"
      by blast
    then show ?thesis
    proof cases
      case 1
      show ?thesis by (rule keep [OF x y conn [OF x y 1]])
    next
      case 2
      have a: "rep p' x = rep p' u" by (rule keep [OF x u conn [OF x u 2(1)]])
      have b: "rep p' v = rep p' y" by (rule keep [OF v y conn [OF v y 2(2)]])
      show ?thesis unfolding a un(3) b ..
    next
      case 3
      have a: "rep p' x = rep p' v" by (rule keep [OF x v conn [OF x v 3(1)]])
      have b: "rep p' u = rep p' y" by (rule keep [OF u y conn [OF u y 3(2)]])
      show ?thesis unfolding a un(3) [symmetric] b ..
    qed
  qed
  have ends': "\<forall>(a, b) \<in> set (pairs acc @ [(u, v)]). a \<in> ?N \<and> b \<in> ?N"
    using ends u v by auto
  have conn'': "\<forall>x \<in> ?N. \<forall>y \<in> ?N.
      (x, y) \<in> uconn (pairs acc @ [(u, v)]) \<longrightarrow> rep p' x = rep p' y"
    using conn' by blast
  have "kruskal_inv G (p', r', acc @ [(u, v, data)])"
    unfolding kruskal_inv_def pairs_snoc prod.case
    by (intro conjI un(2) conn'' fo' ends')
  then show ?thesis using un(1) by blast
qed

lemma find_inv:
  assumes inv: "kruskal_inv G (p, r, acc)" and u: "u \<in> set (gnodes G)"
  shows "\<exists>p'. uf_find p u = Some (p', rep p u) \<and> kruskal_inv G (p', r, acc)
           \<and> (\<forall>y \<in> set (gnodes G). rep p' y = rep p y)"
proof -
  from inv have ui: "uf_inv (set (gnodes G)) p r" by (simp add: kruskal_inv_def)
  from uf_find_correct [OF ui u] obtain p' where
    p': "uf_find p u = Some (p', rep p u)" "uf_inv (set (gnodes G)) p' r"
      "\<forall>y \<in> set (gnodes G). rep p' y = rep p y"
    by blast
  from inv have all: "(\<forall>x \<in> set (gnodes G). \<forall>y \<in> set (gnodes G).
        (x, y) \<in> uconn (pairs acc) \<longrightarrow> rep p x = rep p y)
      \<and> forest (pairs acc)
      \<and> (\<forall>(u, v) \<in> set (pairs acc). u \<in> set (gnodes G) \<and> v \<in> set (gnodes G))"
    unfolding kruskal_inv_def prod.case by (rule conjunct2)
  have conn: "\<forall>x \<in> set (gnodes G). \<forall>y \<in> set (gnodes G).
        (x, y) \<in> uconn (pairs acc) \<longrightarrow> rep p' x = rep p' y"
  proof (intro ballI impI)
    fix x y assume x: "x \<in> set (gnodes G)" and y: "y \<in> set (gnodes G)"
      and xy: "(x, y) \<in> uconn (pairs acc)"
    have "rep p x = rep p y" using all x y xy by blast
    moreover have "rep p' x = rep p x" "rep p' y = rep p y" using p'(3) x y by blast+
    ultimately show "rep p' x = rep p' y" by (rule_tac trans [OF _ sym]) (erule trans)
  qed
  have "kruskal_inv G (p', r, acc)"
    unfolding kruskal_inv_def prod.case
    using p'(2) conn all by (intro conjI) blast+
  then show ?thesis using p' by blast
qed

lemma kruskal_step_unfold:
  assumes "uf_find p u = Some (p1, ru)" and "uf_find p1 v = Some (p2, rv)"
  shows "kruskal_step (p, r, acc) (u, v, d, w, data) =
           (if ru \<noteq> rv
            then (case uf_union (p2, r) u v of
                    None \<Rightarrow> None
                  | Some (p3, r3) \<Rightarrow> Some (p3, r3, acc @ [(u, v, data)]))
            else Some (p2, r, acc))"
  unfolding kruskal_step_def prod.case assms option.case ..

lemma kruskal_step_inv:
  assumes inv: "kruskal_inv G st"
    and u: "u \<in> set (gnodes G)" and v: "v \<in> set (gnodes G)"
  shows "\<exists>st'. kruskal_step st (u, v, d, w, data) = Some st' \<and> kruskal_inv G st'"
proof -
  obtain p r acc where st: "st = (p, r, acc)" by (cases st)
  from find_inv [OF inv [unfolded st] u] obtain p1 where
    p1: "uf_find p u = Some (p1, rep p u)" "kruskal_inv G (p1, r, acc)"
      "\<forall>y \<in> set (gnodes G). rep p1 y = rep p y"
    by blast
  from find_inv [OF p1(2) v] obtain p2 where
    p2: "uf_find p1 v = Some (p2, rep p1 v)" "kruskal_inv G (p2, r, acc)"
      "\<forall>y \<in> set (gnodes G). rep p2 y = rep p1 y"
    by blast
  note step = kruskal_step_unfold [OF p1(1) p2(1), of r acc d w data]
  show ?thesis
  proof (cases "rep p u = rep p1 v")
    case True
    have "kruskal_step st (u, v, d, w, data) = Some (p2, r, acc)"
      unfolding st step using True by simp
    then show ?thesis using p2(2) by blast
  next
    case False
    have a: "rep p2 u = rep p u" using p1(3) p2(3) u by (metis)
    have b: "rep p2 v = rep p1 v" using p2(3) v by blast
    have "rep p2 u \<noteq> rep p2 v" unfolding a b by (rule False)
    from join_inv [OF p2(2) u v this, of data] obtain p3 r3 where
      j: "uf_union (p2, r) u v = Some (p3, r3)" "kruskal_inv G (p3, r3, acc @ [(u, v, data)])"
      by blast
    have "kruskal_step st (u, v, d, w, data) = Some (p3, r3, acc @ [(u, v, data)])"
      unfolding st step j(1) using False by simp
    then show ?thesis using j(2) by blast
  qed
qed

text \<open>The edges of the sorted list join nodes of the graph.\<close>

lemma edges_view_mem:
  assumes "(u, v, k, data) \<in> set (edges_view G)"
  shows "u \<in> set (gnodes G) \<and> (k, data) \<in> set (edges_between G u v)"
  using assms by (auto simp: edges_view_def adj_def Let_def split: if_splits)

lemma weighted_edges_nodes:
  assumes wf: "wf_graph G" and e: "(u, v, d, w, data) \<in> set (weighted_edges alpha beta pop critical G)"
  shows "u \<in> set (gnodes G) \<and> v \<in> set (gnodes G)"
proof -
  from e obtain k where "(u, v, k, data) \<in> set (edges_view G)"
    by (auto simp: weighted_edges_def split: option.splits if_splits)
  from edges_view_mem [OF this] have u: "u \<in> set (gnodes G)"
    and kd: "(k, data) \<in> set (edges_between G u v)" by simp_all
  from kd wf have "v \<in> set (gnodes G)"
    by (auto simp: edges_between_mem wf_graph_def)
  with u show ?thesis by simp
qed

text \<open>
  The search for the best edge of a critical facility only calls \<^verbatim>\<open>find\<close>, which keeps the
  representatives; the edge found joins two nodes with different representatives.
\<close>

definition scan_inv ::
  "graph \<Rightarrow> (node \<Rightarrow> nat) \<Rightarrow> (node \<times> node \<times> edge_data) list
     \<Rightarrow> (node \<Rightarrow> node) \<times> weighted_edge option \<Rightarrow> bool" where
  "scan_inv G r acc s \<longleftrightarrow>
     kruskal_inv G (fst s, r, acc)
     \<and> (\<forall>u v d w data. snd s = Some (u, v, d, w, data)
           \<longrightarrow> u \<in> set (gnodes G) \<and> v \<in> set (gnodes G) \<and> rep (fst s) u \<noteq> rep (fst s) v)"

lemma scan_inv_keep:
  assumes s: "scan_inv G r acc (p, best)" and k: "kruskal_inv G (p', r, acc)"
    and same: "\<forall>y \<in> set (gnodes G). rep p' y = rep p y"
  shows "scan_inv G r acc (p', best)"
  unfolding scan_inv_def fst_conv snd_conv
proof (intro conjI allI impI)
  show "kruskal_inv G (p', r, acc)" by (rule k)
next
  fix u v d w data assume b: "best = Some (u, v, d, w, data)"
  with s have uv: "u \<in> set (gnodes G)" "v \<in> set (gnodes G)" and ne: "rep p u \<noteq> rep p v"
    unfolding scan_inv_def fst_conv snd_conv by blast+
  show "u \<in> set (gnodes G)" by (rule uv(1))
  show "v \<in> set (gnodes G)" by (rule uv(2))
  have a: "rep p' u = rep p u" "rep p' v = rep p v" using same uv by blast+
  show "rep p' u \<noteq> rep p' v" unfolding a by (rule ne)
qed

lemma scan_inv_new:
  assumes k: "kruskal_inv G (p', r, acc)"
    and uv: "u \<in> set (gnodes G)" "v \<in> set (gnodes G)" and ne: "rep p' u \<noteq> rep p' v"
  shows "scan_inv G r acc (p', Some (u, v, d, w, data))"
  unfolding scan_inv_def fst_conv snd_conv using k uv ne by blast

lemma repair_scan_unfold:
  assumes "uf_find p u = Some (p1, ru)" and "uf_find p1 v = Some (p2, rv)"
  shows "repair_scan f (p, best) (u, v, d, w, data) =
           (if u = f \<or> v = f
            then (if ru \<noteq> rv
                  then (case best of
                          None \<Rightarrow> Some (p2, Some (u, v, d, w, data))
                        | Some (bu, bv, bdst, best_weight, bdata) \<Rightarrow>
                            if w < best_weight then Some (p2, Some (u, v, d, w, data))
                            else Some (p2, best))
                  else Some (p2, best))
            else Some (p, best))"
  unfolding repair_scan_def prod.case assms option.case ..

lemma repair_scan_inv:
  assumes inv: "scan_inv G r acc s"
    and u: "u \<in> set (gnodes G)" and v: "v \<in> set (gnodes G)"
  shows "\<exists>s'. repair_scan f s (u, v, d, w, data) = Some s' \<and> scan_inv G r acc s'"
proof -
  obtain p best where s: "s = (p, best)" by (cases s)
  from inv have k: "kruskal_inv G (p, r, acc)" by (simp add: scan_inv_def s)
  from find_inv [OF k u] obtain p1 where
    p1: "uf_find p u = Some (p1, rep p u)" "kruskal_inv G (p1, r, acc)"
      "\<forall>y \<in> set (gnodes G). rep p1 y = rep p y"
    by blast
  from find_inv [OF p1(2) v] obtain p2 where
    p2: "uf_find p1 v = Some (p2, rep p1 v)" "kruskal_inv G (p2, r, acc)"
      "\<forall>y \<in> set (gnodes G). rep p2 y = rep p1 y"
    by blast
  have same: "\<forall>y \<in> set (gnodes G). rep p2 y = rep p y"
  proof
    fix y assume y: "y \<in> set (gnodes G)"
    have "rep p2 y = rep p1 y" using p2(3) y by blast
    also have "\<dots> = rep p y" using p1(3) y by blast
    finally show "rep p2 y = rep p y" .
  qed
  have old: "scan_inv G r acc (p2, best)"
    by (rule scan_inv_keep [OF inv [unfolded s] p2(2) same])
  have new: "scan_inv G r acc (p2, Some (u, v, d, w, data))" if "rep p u \<noteq> rep p1 v"
  proof -
    have a: "rep p2 u = rep p u" using same u by blast
    have b: "rep p2 v = rep p1 v" using p2(3) v by blast
    have "rep p2 u \<noteq> rep p2 v" unfolding a b by (rule that)
    then show ?thesis by (rule scan_inv_new [OF p2(2) u v])
  qed
  note step = repair_scan_unfold [OF p1(1) p2(1), of f best d w data]
  show ?thesis
  proof (cases "u = f \<or> v = f")
    case False
    then have "repair_scan f s (u, v, d, w, data) = Some (p, best)"
      unfolding s step by simp
    then show ?thesis using inv s by blast
  next
    case uf: True
    show ?thesis
    proof (cases "rep p u = rep p1 v")
      case True
      have "repair_scan f s (u, v, d, w, data) = Some (p2, best)"
        unfolding s step using uf True by simp
      then show ?thesis using old by blast
    next
      case False
      have "repair_scan f s (u, v, d, w, data) = Some (p2, best)
          \<or> repair_scan f s (u, v, d, w, data) = Some (p2, Some (u, v, d, w, data))"
        unfolding s step using uf False by (simp split: option.splits prod.splits)
      then show ?thesis using old new [OF False] by blast
    qed
  qed
qed

lemma repair_facility_inv:
  assumes inv: "kruskal_inv G st"
    and ends: "\<forall>(u, v, d, w, data) \<in> set edges. u \<in> set (gnodes G) \<and> v \<in> set (gnodes G)"
  shows "\<exists>st'. repair_facility G edges st f = Some st' \<and> kruskal_inv G st'"
proof -
  obtain p r acc where st: "st = (p, r, acc)" by (cases st)
  show ?thesis
  proof (cases "f \<in> set (gnodes G) \<and> simple_degree acc f < 2")
    case False
    then have "repair_facility G edges st f = Some st"
      unfolding repair_facility_def st by auto
    then show ?thesis using inv by blast
  next
    case True
    have start: "scan_inv G r acc (p, None)"
      using inv unfolding st scan_inv_def by simp
    have "\<exists>s'. fold_option (repair_scan f) (p, None) edges = Some s' \<and> scan_inv G r acc s'"
    proof (rule fold_option_inv [where I = "scan_inv G r acc", OF start])
      fix s x assume s: "scan_inv G r acc s" and x: "x \<in> set edges"
      obtain u v d w data where xe: "x = (u, v, d, w, data)" by (cases x)
      from ends x xe have uv: "u \<in> set (gnodes G)" "v \<in> set (gnodes G)" by auto
      show "\<exists>s'. repair_scan f s x = Some s' \<and> scan_inv G r acc s'"
        unfolding xe by (rule repair_scan_inv [OF s uv])
    qed
    then obtain p1 best where
      sc: "fold_option (repair_scan f) (p, None) edges = Some (p1, best)"
      and si: "scan_inv G r acc (p1, best)" by auto
    from si have k1: "kruskal_inv G (p1, r, acc)" by (simp add: scan_inv_def)
    show ?thesis
    proof (cases best)
      case None
      have "repair_facility G edges st f = Some (p1, r, acc)"
        unfolding repair_facility_def st using True sc None by simp
      then show ?thesis using k1 by blast
    next
      case (Some e)
      obtain u v d w data where e: "e = (u, v, d, w, data)" by (cases e)
      from si Some e have uv: "u \<in> set (gnodes G)" "v \<in> set (gnodes G)"
        and ne: "rep p1 u \<noteq> rep p1 v"
        unfolding scan_inv_def fst_conv snd_conv by blast+
      from join_inv [OF k1 uv ne, of data] obtain p2 r2 where
        j: "uf_union (p1, r) u v = Some (p2, r2)" "kruskal_inv G (p2, r2, acc @ [(u, v, data)])"
        by blast
      have "repair_facility G edges st f = Some (p2, r2, acc @ [(u, v, data)])"
        unfolding repair_facility_def st using True sc Some e j(1) by simp
      then show ?thesis using j(2) by blast
    qed
  qed
qed

lemma kruskal_inv_init: "kruskal_inv G (\<lambda>n. n, \<lambda>n. 0, [])"
  unfolding kruskal_inv_def prod.case
proof (intro conjI)
  show "uf_inv (set (gnodes G)) (\<lambda>n. n) (\<lambda>n. 0)" by (simp add: uf_inv_def)
  show "\<forall>x\<in>set (gnodes G). \<forall>y\<in>set (gnodes G).
          (x, y) \<in> uconn (pairs []) \<longrightarrow> rep (\<lambda>n. n) x = rep (\<lambda>n. n) y"
    by (simp add: pairs_def uconn_def rep_unfold)
  show "forest (pairs [])" by (simp add: forest_def pairs_def)
  show "\<forall>(u, v)\<in>set (pairs []). u \<in> set (gnodes G) \<and> v \<in> set (gnodes G)"
    by (simp add: pairs_def)
qed

lemma population_weighted_mst_run:
  assumes wf: "wf_graph G"
  shows "\<exists>p r mst_edges.
           fold_option (repair_facility G (weighted_edges alpha beta pop critical G))
             (the (fold_option kruskal_step (\<lambda>n. n, \<lambda>n. 0, [])
                     (weighted_edges alpha beta pop critical G)))
             crit = Some (p, r, mst_edges)
           \<and> fold_option kruskal_step (\<lambda>n. n, \<lambda>n. 0, [])
                     (weighted_edges alpha beta pop critical G) \<noteq> None
           \<and> kruskal_inv G (p, r, mst_edges)"
proof -
  let ?E = "weighted_edges alpha beta pop critical G"
  have ends: "\<forall>(u, v, d, w, data) \<in> set ?E. u \<in> set (gnodes G) \<and> v \<in> set (gnodes G)"
    using weighted_edges_nodes [OF wf] by blast
  have "\<exists>s'. fold_option kruskal_step (\<lambda>n. n, \<lambda>n. 0, []) ?E = Some s' \<and> kruskal_inv G s'"
  proof (rule fold_option_inv [where I = "kruskal_inv G", OF kruskal_inv_init])
    fix s x assume s: "kruskal_inv G s" and x: "x \<in> set ?E"
    obtain u v d w data where xe: "x = (u, v, d, w, data)" by (cases x)
    from ends x xe have uv: "u \<in> set (gnodes G)" "v \<in> set (gnodes G)" by auto
    show "\<exists>s'. kruskal_step s x = Some s' \<and> kruskal_inv G s'"
      unfolding xe by (rule kruskal_step_inv [OF s uv])
  qed
  then obtain built where b: "fold_option kruskal_step (\<lambda>n. n, \<lambda>n. 0, []) ?E = Some built"
    and bi: "kruskal_inv G built" by blast
  have "\<exists>s'. fold_option (repair_facility G ?E) built crit = Some s' \<and> kruskal_inv G s'"
  proof (rule fold_option_inv [where I = "kruskal_inv G", OF bi])
    fix s x assume s: "kruskal_inv G s"
    show "\<exists>s'. repair_facility G ?E s x = Some s' \<and> kruskal_inv G s'"
      by (rule repair_facility_inv [OF s ends])
  qed
  then obtain st where st: "fold_option (repair_facility G ?E) built crit = Some st"
    and si: "kruskal_inv G st" by blast
  obtain p r acc where "st = (p, r, acc)" by (cases st)
  then show ?thesis using b st si by auto
qed

text \<open>
  The property of the claim for a list of selected edges: it has no cycle, and the number
  of edges is the number of nodes minus the number of components of the graph that the
  edges form on the nodes.
\<close>

definition spanning_forest :: "node list \<Rightarrow> (node \<times> node \<times> edge_data) list \<Rightarrow> bool" where
  "spanning_forest nodes mst_edges \<longleftrightarrow>
     forest (pairs mst_edges)
     \<and> length mst_edges + component_count nodes (pairs mst_edges) = length nodes"

text \<open>
  \<open>budget_constrained_mst\<close> and \<open>connectivity_based_mst\<close> add a potential road only between
  nodes that \<open>has_path\<close> does not join, so that a forest stays a forest.
\<close>

definition edges_ok :: "graph \<Rightarrow> (node \<times> node \<times> edge_data) list \<Rightarrow> bool" where
  "edges_ok G acc \<longleftrightarrow>
     forest (pairs acc)
     \<and> (\<forall>(u, v) \<in> set (pairs acc). u \<in> set (gnodes G) \<and> v \<in> set (gnodes G))"

lemma edges_ok_snoc:
  assumes "edges_ok G acc" and "u \<in> set (gnodes G)" and "v \<in> set (gnodes G)"
    and "\<not> has_path (pairs acc) u v"
  shows "edges_ok G (acc @ [(u, v, data)])"
proof -
  from assms(4) have "(u, v) \<notin> uconn (pairs acc)" by (simp add: has_path_uconn)
  with assms(1) have "forest (pairs acc @ [(u, v)])"
    unfolding edges_ok_def by (blast intro: forest_snoc)
  moreover have "\<forall>(a, b) \<in> set (pairs acc @ [(u, v)]). a \<in> set (gnodes G) \<and> b \<in> set (gnodes G)"
    using assms(1-3) unfolding edges_ok_def by auto
  ultimately show ?thesis unfolding edges_ok_def pairs_snoc by blast
qed

lemma potential_step_ok:
  assumes "potential_step G (Inr (acc, b)) e = Inr (acc', b')" and "edges_ok G acc"
  shows "edges_ok G acc'"
proof -
  obtain u v c where e: "e = (u, v, c)" by (cases e)
  show ?thesis
  proof (cases "u \<in> set (gnodes G) \<and> v \<in> set (gnodes G) \<and> \<not> has_path (pairs acc) u v \<and> c \<le> b")
    case False
    then have "potential_step G (Inr (acc, b)) e = Inr (acc, b)"
      unfolding potential_step_def e by auto
    with assms show ?thesis by simp
  next
    case True
    then have "acc' = acc \<or> (\<exists>data. acc' = acc @ [(u, v, data)])"
      using assms(1) unfolding potential_step_def e
      by (auto split: sum.splits option.splits)
    then show ?thesis using assms(2) edges_ok_snoc [of G acc u v] True by blast
  qed
qed

lemma potential_step_error: "potential_step G (Inl err) e = Inl err"
  by (simp add: potential_step_def)

lemma potential_fold_error: "foldl (potential_step G) (Inl err) es = Inl err"
  by (induction es) (simp_all add: potential_step_error)

lemma potential_fold_ok:
  assumes "foldl (potential_step G) (Inr (acc, b)) es = Inr (acc', b')" and "edges_ok G acc"
  shows "edges_ok G acc'"
  using assms
proof (induction es arbitrary: acc b)
  case Nil
  then show ?case by simp
next
  case (Cons e es)
  show ?case
  proof (cases "potential_step G (Inr (acc, b)) e")
    case (Inl err)
    then show ?thesis using Cons.prems(1) by (simp add: potential_fold_error)
  next
    case (Inr s)
    obtain acc1 b1 where s: "s = (acc1, b1)" by (cases s)
    have ok1: "edges_ok G acc1" by (rule potential_step_ok [OF Inr [unfolded s] Cons.prems(2)])
    have "foldl (potential_step G) (Inr (acc1, b1)) es = Inr (acc', b')"
      using Cons.prems(1) Inr s by simp
    from Cons.IH [OF this ok1] show ?thesis .
  qed
qed

lemma existing_step_error: "existing_step G (Inl err) e = Inl err"
  by (simp add: existing_step_def)

lemma existing_fold_error: "foldl (existing_step G) (Inl err) es = Inl err"
  by (induction es) (simp_all add: existing_step_error)

lemma existing_fold_nodes:
  assumes "foldl (existing_step G) (Inr acc) es = Inr kept"
    and "\<forall>(u, v) \<in> set (pairs acc). u \<in> set (gnodes G) \<and> v \<in> set (gnodes G)"
  shows "\<forall>(u, v) \<in> set (pairs kept). u \<in> set (gnodes G) \<and> v \<in> set (gnodes G)"
  using assms
proof (induction es arbitrary: acc)
  case Nil
  then show ?case by simp
next
  case (Cons e es)
  obtain u v where e: "e = (u, v)" by (cases e)
  show ?case
  proof (cases "existing_step G (Inr acc) e")
    case (Inl err)
    then show ?thesis using Cons.prems(1) by (simp add: existing_fold_error)
  next
    case (Inr acc1)
    then have "acc1 = acc \<or> (\<exists>data. acc1 = acc @ [(u, v, data)]
                 \<and> u \<in> set (gnodes G) \<and> v \<in> set (gnodes G))"
      unfolding existing_step_def e by (auto split: sum.splits option.splits if_splits)
    then have ok1: "\<forall>(u, v) \<in> set (pairs acc1). u \<in> set (gnodes G) \<and> v \<in> set (gnodes G)"
      using Cons.prems(2) by (auto simp: pairs_snoc)
    have "foldl (existing_step G) (Inr acc1) es = Inr kept"
      using Cons.prems(1) Inr by simp
    from Cons.IH [OF this ok1] show ?thesis .
  qed
qed

lemma spanning_forestI:
  assumes "edges_ok G acc" and "distinct (gnodes G)"
  shows "spanning_forest (gnodes G) acc"
proof -
  from assms(1) have f: "forest (pairs acc)"
    and n: "\<forall>(u, v) \<in> set (pairs acc). u \<in> set (gnodes G) \<and> v \<in> set (gnodes G)"
    unfolding edges_ok_def by blast+
  have "length (pairs acc) + card (set (gnodes G) // nconn (gnodes G) (pairs acc))
          = card (set (gnodes G))"
    by (rule forest_edge_count [OF f n])
  then show ?thesis
    unfolding spanning_forest_def component_count_def
    using f assms(2) by (simp add: pairs_def distinct_card)
qed

lemma budgeted_mst_forest:
  assumes run: "budgeted_mst G budget ers pes = Inr (mst_edges, spent)"
    and kept: "existing_roads_kept G ers = Inr kept" and f: "forest (pairs kept)"
    and d: "distinct (gnodes G)"
  shows "spanning_forest (gnodes G) mst_edges"
proof -
  have "\<forall>(u, v) \<in> set (pairs kept). u \<in> set (gnodes G) \<and> v \<in> set (gnodes G)"
    by (rule existing_fold_nodes [OF kept [unfolded existing_roads_kept_def]])
       (simp add: pairs_def)
  with f have ok: "edges_ok G kept" unfolding edges_ok_def by blast
  from run obtain remaining where
    "foldl (potential_step G) (Inr (kept, budget)) pes = Inr (mst_edges, remaining)"
    unfolding budgeted_mst_def kept by (auto split: sum.splits)
  from potential_fold_ok [OF this ok] have "edges_ok G mst_edges" .
  then show ?thesis using d by (rule spanning_forestI)
qed

text \<open>In a forest no pair of nodes occurs twice, so the simple graph has as many edges as the list.\<close>

lemma forest_card_pairs:
  assumes "forest (pairs acc)"
  shows "card ((\<lambda>(u, v, data). {u, v}) ` set acc) = length acc"
  using assms
proof (induction acc rule: rev_induct)
  case Nil
  then show ?case by simp
next
  case (snoc e acc)
  obtain u v data where e: "e = (u, v, data)" by (cases e)
  from snoc.prems have "forest (pairs acc @ [(u, v)])" by (simp add: e pairs_snoc)
  from forest_butlast [OF this] have f: "forest (pairs acc)" and n: "(u, v) \<notin> uconn (pairs acc)"
    by simp_all
  have new: "{u, v} \<notin> (\<lambda>(u, v, data). {u, v}) ` set acc"
  proof
    assume "{u, v} \<in> (\<lambda>(u, v, data). {u, v}) ` set acc"
    then obtain a b d' where ab: "(a, b, d') \<in> set acc" "{u, v} = {a, b}" by auto
    from ab(1) have "(a, b) \<in> set (pairs acc)" by (force simp: pairs_def)
    then have c: "(a, b) \<in> uconn (pairs acc)" by (rule uconn_edge)
    from ab(2) consider "u = a" "v = b" | "u = b" "v = a" by (auto simp: doubleton_eq_iff)
    then have "(u, v) \<in> uconn (pairs acc)"
    proof cases
      case 1
      then show ?thesis using c by simp
    next
      case 2
      then show ?thesis using uconn_sym [OF c] by simp
    qed
    with n show False by simp
  qed
  have "card ((\<lambda>(u, v, data). {u, v}) ` set (acc @ [e]))
      = card (insert {u, v} ((\<lambda>(u, v, data). {u, v}) ` set acc))"
    by (simp add: e)
  also have "\<dots> = Suc (card ((\<lambda>(u, v, data). {u, v}) ` set acc))"
    using new by simp
  also have "\<dots> = Suc (length acc)" using snoc.IH [OF f] by simp
  finally show ?case by simp
qed

lemma population_weighted_mst_forest:
  assumes wf: "wf_graph G" and d: "distinct (gnodes G)"
    and ne: "gnodes G \<noteq> []" and pop: "nbs = [] \<or> population_total nbs \<noteq> 0"
  shows "\<exists>mst_edges analysis.
           population_weighted_mst G nbs fcs alpha beta = Some (Inr (mst_edges, analysis))
           \<and> node_count analysis = length (gnodes G)
           \<and> edge_count analysis = length mst_edges
           \<and> spanning_forest (gnodes G) mst_edges"
proof -
  let ?E = "weighted_edges alpha beta (population_by_id nbs) (critical_facilities_of fcs) G"
  from population_weighted_mst_run [OF wf, of alpha beta "population_by_id nbs"
      "critical_facilities_of fcs" "critical_facilities_of fcs"]
  obtain built p r mst_edges where
    b: "fold_option kruskal_step (\<lambda>n. n, \<lambda>n. 0, []) ?E = Some built"
    and st: "fold_option (repair_facility G ?E) built (critical_facilities_of fcs)
               = Some (p, r, mst_edges)"
    and inv: "kruskal_inv G (p, r, mst_edges)"
    by auto
  from inv have "edges_ok G mst_edges" unfolding kruskal_inv_def edges_ok_def by blast
  then have sf: "spanning_forest (gnodes G) mst_edges" using d by (rule spanning_forestI)
  from sf have ec: "card ((\<lambda>(u, v, data). {u, v}) ` set mst_edges) = length mst_edges"
    unfolding spanning_forest_def by (blast intro: forest_card_pairs)
  have "population_weighted_mst G nbs fcs alpha beta =
          Some (Inr (mst_edges,
                     \<lparr>node_count = length (gnodes G),
                      edge_count = card ((\<lambda>(u, v, data). {u, v}) ` set mst_edges)\<rparr>))"
    unfolding population_weighted_mst_def Let_def b option.case st prod.case using ne pop by auto
  then show ?thesis using sf ec by simp
qed

text \<open>
  Three nodes with an existing road between each two of them, and the three rows of the
  table of existing roads.
\<close>

definition existing_row :: "node \<Rightarrow> node \<Rightarrow> existing_road_row" where
  "existing_row a b =
     \<lparr>er_from = a, er_to = b, er_distance_km = 1, er_capacity = 1000, er_condition = 5\<rparr>"

definition triangle_graph :: graph where
  "triangle_graph =
     \<lparr>gnodes = [''1'', ''2'', ''3''], gpos = Map.empty,
      gedges = [(''1'', ''2'', 0, road_edge 1000 1000 ''existing''),
                (''2'', ''3'', 0, road_edge 1000 1000 ''existing''),
                (''1'', ''3'', 0, road_edge 1000 1000 ''existing'')]\<rparr>"

definition triangle_roads :: "existing_road_row list" where
  "triangle_roads = [existing_row ''1'' ''2'', existing_row ''2'' ''3'', existing_row ''1'' ''3'']"

definition triangle_edges :: "(node \<times> node \<times> edge_data) list" where
  "triangle_edges =
     [(''1'', ''2'', road_edge 1000 1000 ''existing''),
      (''2'', ''3'', road_edge 1000 1000 ''existing''),
      (''1'', ''3'', road_edge 1000 1000 ''existing'')]"

lemma triangle_run:
  "budget_constrained_mst triangle_graph 0 triangle_roads [] = Inr (triangle_edges, 0)"
  unfolding triangle_graph_def triangle_roads_def triangle_edges_def existing_row_def
  by code_simp

lemma triangle_run2:
  "connectivity_based_mst triangle_graph 0 triangle_roads [] [] = Inr (triangle_edges, 0)"
  unfolding triangle_graph_def triangle_roads_def triangle_edges_def existing_row_def
  by code_simp

lemma triangle_cycle: "\<not> forest (pairs triangle_edges)"
proof
  assume "forest (pairs triangle_edges)"
  then have "forest ([(''1'', ''2''), (''2'', ''3'')] @ [(''1'', ''3'')])"
    by (simp add: pairs_def triangle_edges_def)
  then have n: "(''1'', ''3'') \<notin> uconn [(''1'', ''2''), (''2'', ''3'')]"
    by (rule forest_butlast [THEN conjunct2])
  have "(''1'', ''2'') \<in> uconn [(''1'', ''2''), (''2'', ''3'')]" by (rule uconn_edge) simp
  moreover have "(''2'', ''3'') \<in> uconn [(''1'', ''2''), (''2'', ''3'')]" by (rule uconn_edge) simp
  ultimately have "(''1'', ''3'') \<in> uconn [(''1'', ''2''), (''2'', ''3'')]" by (rule uconn_trans)
  with n show False by simp
qed

lemma component_count_pos:
  assumes "nodes \<noteq> []"
  shows "0 < component_count nodes es"
proof -
  obtain x where x: "x \<in> set nodes" using assms by (cases nodes) auto
  have "finite (set nodes // nconn nodes es)" by (rule finite_quotient [OF finite_set])
      (auto simp: nconn_def)
  moreover have "nconn nodes es `` {x} \<in> set nodes // nconn nodes es"
    using x by (rule quotientI)
  ultimately show ?thesis unfolding component_count_def by (auto simp: card_gt_0_iff)
qed

text \<open>
  Claim C2 as stated fails on this input. \<open>budget_constrained_mst\<close> and
  \<open>connectivity_based_mst\<close> start from every existing road whose end points are nodes, with
  no test for a cycle: they return the three roads of the triangle, which form a cycle, on
  three nodes in one component, where a forest has two edges.
\<close>

theorem budget_mst_keeps_cycle:
  "budget_constrained_mst triangle_graph 0 triangle_roads [] = Inr (triangle_edges, 0)
   \<and> connectivity_based_mst triangle_graph 0 triangle_roads [] [] = Inr (triangle_edges, 0)
   \<and> \<not> forest (pairs triangle_edges)
   \<and> length triangle_edges = 3 \<and> length (gnodes triangle_graph) = 3
   \<and> length triangle_edges + component_count (gnodes triangle_graph) (pairs triangle_edges)
       \<noteq> length (gnodes triangle_graph)"
proof -
  have "0 < component_count (gnodes triangle_graph) (pairs triangle_edges)"
    by (rule component_count_pos) (simp add: triangle_graph_def)
  moreover have "length triangle_edges = 3" "length (gnodes triangle_graph) = 3"
    by (simp_all add: triangle_edges_def triangle_graph_def)
  ultimately show ?thesis using triangle_run triangle_run2 triangle_cycle by simp
qed

text \<open>
  Claim C2, amended. On a graph whose nodes are distinct and contain the end points of the
  edges: \<open>population_weighted_mst\<close> returns (it raises \<^verbatim>\<open>ZeroDivisionError\<close> only when the graph
  has no node or the population table is not empty and sums to zero), and the edge list it
  returns contains no cycle and has exactly \<open>node_count\<close> minus the number of components
  edges, as has the simple graph counted by \<open>edge_count\<close>. The edge list returned by
  \<open>budget_constrained_mst\<close> or \<open>connectivity_based_mst\<close> has the same property whenever the
  existing roads that the function starts from contain no cycle.
\<close>

theorem mst_edges_form_forest:
  assumes "wf_graph G" and "distinct (gnodes G)"
  shows "(gnodes G \<noteq> [] \<and> (nbs = [] \<or> population_total nbs \<noteq> 0) \<longrightarrow>
            (\<exists>mst_edges analysis.
               population_weighted_mst G nbs fcs alpha beta = Some (Inr (mst_edges, analysis))
               \<and> node_count analysis = length (gnodes G)
               \<and> edge_count analysis = length mst_edges
               \<and> spanning_forest (gnodes G) mst_edges))
       \<and> (\<forall>kept mst_edges spent.
             existing_roads_kept G ers = Inr kept \<and> forest (pairs kept)
             \<and> (budget_constrained_mst G budget ers prs = Inr (mst_edges, spent)
                \<or> connectivity_based_mst G budget ers prs fcs = Inr (mst_edges, spent))
             \<longrightarrow> spanning_forest (gnodes G) mst_edges)"
proof (intro conjI impI allI)
  assume "gnodes G \<noteq> [] \<and> (nbs = [] \<or> population_total nbs \<noteq> 0)"
  then show "\<exists>mst_edges analysis.
               population_weighted_mst G nbs fcs alpha beta = Some (Inr (mst_edges, analysis))
               \<and> node_count analysis = length (gnodes G)
               \<and> edge_count analysis = length mst_edges
               \<and> spanning_forest (gnodes G) mst_edges"
    using population_weighted_mst_forest [OF assms] by blast
next
  fix kept mst_edges spent
  assume a: "existing_roads_kept G ers = Inr kept \<and> forest (pairs kept)
             \<and> (budget_constrained_mst G budget ers prs = Inr (mst_edges, spent)
                \<or> connectivity_based_mst G budget ers prs fcs = Inr (mst_edges, spent))"
  then have "\<exists>pes. budgeted_mst G budget ers pes = Inr (mst_edges, spent)"
    unfolding budget_constrained_mst_def connectivity_based_mst_def by blast
  then obtain pes where "budgeted_mst G budget ers pes = Inr (mst_edges, spent)" ..
  then show "spanning_forest (gnodes G) mst_edges"
    using a assms(2) by (blast intro: budgeted_mst_forest)
qed

text \<open>
  A path of an existing road and a potential road of cost 5, with a budget of 10: all three
  functions return the two edges.
\<close>

definition path_graph :: graph where
  "path_graph =
     \<lparr>gnodes = [''1'', ''2'', ''3''], gpos = Map.empty,
      gedges = [(''1'', ''2'', 0, road_edge 1000 1000 ''existing''),
                (''2'', ''3'', 0,
                 \<lparr>distance = Some 2000, capacity = Some 1000, condition = None,
                  road_type = Some ''potential'', cost = Some 5\<rparr>)]\<rparr>"

definition path_potential :: "potential_road_row list" where
  "path_potential =
     [\<lparr>pr_from = ''2'', pr_to = ''3'', pr_distance_km = 2, pr_capacity = 1000, pr_cost = 5\<rparr>]"

definition path_edges :: "(node \<times> node \<times> edge_data) list" where
  "path_edges =
     [(''1'', ''2'', road_edge 1000 1000 ''existing''),
      (''2'', ''3'',
       \<lparr>distance = Some 2000, capacity = Some 1000, condition = None,
        road_type = Some ''potential'', cost = Some 5\<rparr>)]"

lemma path_kept:
  "existing_roads_kept path_graph [existing_row ''1'' ''2''] = Inr [hd path_edges]"
  unfolding path_graph_def existing_row_def path_edges_def by code_simp

lemma path_run:
  "budget_constrained_mst path_graph 10 [existing_row ''1'' ''2''] path_potential
     = Inr (path_edges, 5)"
  unfolding path_graph_def existing_row_def path_edges_def path_potential_def by code_simp

lemma path_run2:
  "connectivity_based_mst path_graph 10 [existing_row ''1'' ''2''] path_potential []
     = Inr (path_edges, 5)"
  unfolding path_graph_def existing_row_def path_edges_def path_potential_def by code_simp

lemma path_weighted_edges:
  "weighted_edges (7 / 10) (3 / 10) (population_by_id []) (critical_facilities_of []) path_graph
   = [(''1'', ''2'', 1000, 1000, road_edge 1000 1000 ''existing''),
      (''2'', ''3'', 2000, 2000,
       \<lparr>distance = Some 2000, capacity = Some 1000, condition = None,
        road_type = Some ''potential'', cost = Some 5\<rparr>)]"
  unfolding path_graph_def by code_simp

lemma path_run3:
  "population_weighted_mst path_graph [] [] (7 / 10) (3 / 10)
     = Some (Inr (path_edges, \<lparr>node_count = 3, edge_count = 2\<rparr>))"
proof -
  have nodes: "gnodes path_graph = [''1'', ''2'', ''3'']" by (simp add: path_graph_def)
  have crit: "critical_facilities_of [] = []" by (simp add: critical_facilities_of_def)
  have card: "card ((\<lambda>(u, v, data). {u, v}) ` set path_edges) = 2"
    by (simp add: path_edges_def doubleton_eq_iff)
  have "\<exists>p r. fold_option kruskal_step (\<lambda>n. n, \<lambda>n. 0, [])
          (weighted_edges (7 / 10) (3 / 10) (population_by_id []) (critical_facilities_of [])
             path_graph) = Some (p, r, path_edges)"
    unfolding path_weighted_edges
    by (simp add: kruskal_step_def uf_union_def uf_find.simps path_edges_def)
  then obtain p r where
    "fold_option kruskal_step (\<lambda>n. n, \<lambda>n. 0, [])
          (weighted_edges (7 / 10) (3 / 10) (population_by_id []) (critical_facilities_of [])
             path_graph) = Some (p, r, path_edges)" by blast
  then show ?thesis
    unfolding population_weighted_mst_def Let_def
    by (simp add: crit nodes card)
qed

lemma path_forest_kept: "forest (pairs [hd path_edges])"
  by (simp add: forest_def pairs_def uconn_def path_edges_def)

theorem mst_edges_form_forest_witness:
  "wf_graph path_graph \<and> distinct (gnodes path_graph) \<and> gnodes path_graph \<noteq> []
   \<and> population_weighted_mst path_graph [] [] (7 / 10) (3 / 10)
        = Some (Inr (path_edges, \<lparr>node_count = 3, edge_count = 2\<rparr>))
   \<and> existing_roads_kept path_graph [existing_row ''1'' ''2''] = Inr [hd path_edges]
   \<and> forest (pairs [hd path_edges])
   \<and> budget_constrained_mst path_graph 10 [existing_row ''1'' ''2''] path_potential
        = Inr (path_edges, 5)
   \<and> connectivity_based_mst path_graph 10 [existing_row ''1'' ''2''] path_potential []
        = Inr (path_edges, 5)
   \<and> spanning_forest (gnodes path_graph) path_edges"
proof -
  have wf: "wf_graph path_graph" by (simp add: wf_graph_def path_graph_def)
  have d: "distinct (gnodes path_graph)" by (simp add: path_graph_def)
  have ne: "gnodes path_graph \<noteq> []" by (simp add: path_graph_def)
  have "spanning_forest (gnodes path_graph) path_edges"
    using mst_edges_form_forest [OF wf d, of "[]" "[]" "7 / 10" "3 / 10"
        "[existing_row ''1'' ''2'']" 10 path_potential]
      path_kept path_forest_kept path_run
    by blast
  then show ?thesis
    using wf d ne path_run3 path_kept path_forest_kept path_run path_run2 by simp
qed

end
